theory Spec2Isabelle
  imports Complex_Main "HOL-Library.Log_Nat" "HOL-Library.Char_ord" "HOL-Library.List_Lexorder"
begin

section \<open>Configuration macros of main.c\<close>

definition DB_FILE_PATH :: string where
  "DB_FILE_PATH = ''test.db''"

definition NUM_EXECUTIONS :: int where
  "NUM_EXECUTIONS = 10000000"

text \<open>The C type \<^verbatim>\<open>int\<close> of the loop counters is 32 bits wide.\<close>

definition INT_MAX :: int where
  "INT_MAX = 2147483647"

section \<open>Text: \<^verbatim>\<open>sprintf\<close> with one \<^verbatim>\<open>%d\<close>, and the 25-byte key buffer\<close>

definition digit_char :: "nat \<Rightarrow> char" where
  "digit_char d = char_of (48 + d)"

function dec :: "nat \<Rightarrow> string" where
  "dec n = (if n < 10 then [digit_char n] else dec (n div 10) @ [digit_char (n mod 10)])"
  by pat_completeness auto
termination
  by (relation "measure id") auto

declare dec.simps [simp del]

text \<open>What \<^verbatim>\<open>%d\<close> prints for an \<^verbatim>\<open>int\<close>.\<close>

definition show_int :: "int \<Rightarrow> string" where
  "show_int i = (if i < 0 then CHR ''-'' # dec (nat (- i)) else dec (nat i))"

text \<open>
  \<^verbatim>\<open>sprintf(buf, fmt, i)\<close> for a format whose only conversion is \<^verbatim>\<open>%d\<close>: every other
  character is copied.
\<close>

fun format_d :: "string \<Rightarrow> int \<Rightarrow> string" where
  "format_d [] i = []"
| "format_d [c] i = [c]"
| "format_d (c # d # fmt) i =
     (if c = CHR ''%'' \<and> d = CHR ''d'' then show_int i @ format_d fmt i
      else c # format_d (d # fmt) i)"

text \<open>The key each insert strategy prints for loop index \<open>i\<close> (lines 238, 279, 331).\<close>

definition insert_rows_key :: "int \<Rightarrow> string" where
  "insert_rows_key i = format_d ''%d'' i"

definition insert_rows_xact_key :: "int \<Rightarrow> string" where
  "insert_rows_xact_key i = format_d ''K-%d'' i"

definition insert_rows_xact_prepared_key :: "int \<Rightarrow> string" where
  "insert_rows_xact_prepared_key i = format_d ''K-%d'' i"

text \<open>
  \<^verbatim>\<open>char key[25]\<close>: a string of \<open>n\<close> characters needs \<open>n + 1\<close> bytes, so it fits when
  \<open>n \<le> 24\<close>. Writing a longer one is undefined behaviour in C.
\<close>

definition KEY_SIZE :: nat where
  "KEY_SIZE = 25"

definition fits_key :: "string \<Rightarrow> bool" where
  "fits_key s = (length s < KEY_SIZE)"

section \<open>The C type \<^verbatim>\<open>double\<close>\<close>

text \<open>
  A finite binary64 value is the rational it denotes; \<open>fl\<close> rounds a rational to the nearest
  value with a 53-bit significand, ties to even. The exponent range is not limited: every
  quantity this program computes lies far inside binary64's normal range. Signed zeros are
  not distinguished.
\<close>

definition ilog2 :: "rat \<Rightarrow> int" where
  "ilog2 q = (let (a, b) = quotient_of q; k = bitlen a - bitlen b
              in if 2 powi k \<le> q then k else k - 1)"

definition round_even :: "rat \<Rightarrow> int" where
  "round_even x = (let f = \<lfloor>x\<rfloor>; d = x - of_int f
                   in if d < 1 / 2 then f else if 1 / 2 < d then f + 1
                      else if even f then f else f + 1)"

definition fl :: "rat \<Rightarrow> rat" where
  "fl q = (if q = 0 then 0
           else let u = 2 powi (ilog2 \<bar>q\<bar> - 52)
                in sgn q * of_int (round_even (\<bar>q\<bar> / u)) * u)"

datatype double = Finite rat | PosInf | NegInf | NaN

definition double_of_int :: "int \<Rightarrow> double" where
  "double_of_int i = Finite (fl (of_int i))"

fun double_div :: "double \<Rightarrow> double \<Rightarrow> double" where
  "double_div NaN y = NaN"
| "double_div x NaN = NaN"
| "double_div (Finite a) (Finite b) =
     (if b = 0 then (if a = 0 then NaN else if 0 < a then PosInf else NegInf)
      else Finite (fl (a / b)))"
| "double_div (Finite a) y = Finite 0"
| "double_div PosInf (Finite b) = (if 0 \<le> b then PosInf else NegInf)"
| "double_div NegInf (Finite b) = (if 0 \<le> b then NegInf else PosInf)"
| "double_div x y = NaN"

fun double_add :: "double \<Rightarrow> double \<Rightarrow> double" where
  "double_add NaN y = NaN"
| "double_add x NaN = NaN"
| "double_add (Finite a) (Finite b) = Finite (fl (a + b))"
| "double_add (Finite a) y = y"
| "double_add x (Finite b) = x"
| "double_add PosInf PosInf = PosInf"
| "double_add NegInf NegInf = NegInf"
| "double_add x y = NaN"

text \<open>\<^verbatim>\<open>++x\<close> on a double.\<close>

definition double_incr :: "double \<Rightarrow> double" where
  "double_incr x = double_add x (Finite 1)"

definition RAND_DOUBLE_LIMIT :: double where
  "RAND_DOUBLE_LIMIT = Finite 100"

text \<open>
  The arithmetic of \<^verbatim>\<open>rand_double\<close> (line 220) for the value \<open>r\<close> that \<^verbatim>\<open>rand()\<close> returned:
  \<^verbatim>\<open>(double)r / (RAND_MAX / RAND_DOUBLE_LIMIT)\<close>. \<^verbatim>\<open>RAND_MAX\<close> comes from \<^verbatim>\<open>stdlib.h\<close> and is a
  parameter here.
\<close>

definition rand_double_of :: "int \<Rightarrow> int \<Rightarrow> double" where
  "rand_double_of rand_max r =
     double_div (double_of_int r) (double_div (double_of_int rand_max) RAND_DOUBLE_LIMIT)"

text \<open>
  The two numbers \<^verbatim>\<open>time_test_execution\<close> prints (lines 211 and 212), from the two clock
  readings: \<^verbatim>\<open>(end - start) / (double)CLOCKS_PER_SEC\<close> and \<^verbatim>\<open>NUM_EXECUTIONS / time_ms\<close>.
\<close>

definition elapsed_seconds :: "int \<Rightarrow> int \<Rightarrow> int \<Rightarrow> double" where
  "elapsed_seconds clocks_per_sec start end =
     double_div (double_of_int (end - start)) (double_of_int clocks_per_sec)"

definition rows_per_sec :: "int \<Rightarrow> double \<Rightarrow> double" where
  "rows_per_sec n time_ms = double_div (double_of_int n) time_ms"

text \<open>
  The numeric literal that \<^verbatim>\<open>%f\<close> prints for a finite double: six decimals. An infinity or a
  NaN prints as a word, which is no numeric literal.
\<close>

fun printf_f :: "double \<Rightarrow> rat option" where
  "printf_f (Finite x) = Some (of_int (round_even (x * 1000000)) / 1000000)"
| "printf_f x = None"


section \<open>The world the program runs in\<close>

text \<open>The C struct \<^verbatim>\<open>test_t\<close> (lines 36 to 43), which is also the shape of a row of table Test.\<close>

record test_t =
  rowid :: int
  key :: string
  num1 :: double
  num2 :: double
  num3 :: double
  num4 :: double

text \<open>
  Modelled from the spec: the embedded store of section 6 (\<^verbatim>\<open>sqlite3.h\<close> and the SQLite library
  are not part of the repository). The result codes are those of \<^verbatim>\<open>sqlite3.h\<close>.
\<close>

abbreviation (input) SQLITE_OK :: int where "SQLITE_OK \<equiv> 0"
abbreviation (input) SQLITE_ERROR :: int where "SQLITE_ERROR \<equiv> 1"
abbreviation (input) SQLITE_BUSY :: int where "SQLITE_BUSY \<equiv> 5"
abbreviation (input) SQLITE_FULL :: int where "SQLITE_FULL \<equiv> 13"
abbreviation (input) SQLITE_CONSTRAINT :: int where "SQLITE_CONSTRAINT \<equiv> 19"
abbreviation (input) SQLITE_MISMATCH :: int where "SQLITE_MISMATCH \<equiv> 20"
abbreviation (input) SQLITE_MISUSE :: int where "SQLITE_MISUSE \<equiv> 21"
abbreviation (input) SQLITE_RANGE :: int where "SQLITE_RANGE \<equiv> 25"
abbreviation (input) SQLITE_ROW :: int where "SQLITE_ROW \<equiv> 100"
abbreviation (input) SQLITE_DONE :: int where "SQLITE_DONE \<equiv> 101"

definition INT64_MAX :: int where
  "INT64_MAX = 9223372036854775807"

text \<open>
  The statement texts of main.c, by their abstract syntax:
  \<^item> \<open>CREATE_TABLE_IF_NOT_EXISTS\<close>: the text of \<^verbatim>\<open>setup_test\<close> (lines 158 to 164);
  \<^item> \<open>BEGIN_TRANSACTION\<close>, \<open>COMMIT_TRANSACTION\<close>;
  \<^item> \<open>INSERT_VALUES key n1 n2 n3 n4\<close>: the text \<^verbatim>\<open>sprintf\<close> builds at lines 248 and 285, with
    the key between quotes and the four numbers as \<^verbatim>\<open>%f\<close> printed them (the 500-byte buffer
    that holds the text is not modelled);
  \<^item> \<open>INSERT_PARAMS\<close>: line 324, five parameters;
  \<^item> \<open>SELECT_ORDER_BY_key\<close>, \<open>UPDATE_WHERE_key\<close>: lines 392 and 398;
  \<^item> \<open>SELECT_ORDER_BY_rowid\<close>, \<open>UPDATE_WHERE_rowid\<close>: lines 492 and 501.
\<close>

datatype sql =
    CREATE_TABLE_IF_NOT_EXISTS
  | BEGIN_TRANSACTION
  | COMMIT_TRANSACTION
  | INSERT_VALUES string "rat option" "rat option" "rat option" "rat option"
  | INSERT_PARAMS
  | SELECT_ORDER_BY_key
  | UPDATE_WHERE_key
  | SELECT_ORDER_BY_rowid
  | UPDATE_WHERE_rowid

datatype sqlval = Text string | Real double | Integer int

text \<open>
  A prepared statement: its text, the values bound to its parameters (an unbound one is
  \<open>None\<close>), the rows a SELECT has still to deliver (\<open>None\<close> before its first step), the row
  it is on, and the status of its latest step.
\<close>

record stmt =
  stmt_sql :: sql
  params :: "nat \<Rightarrow> sqlval option"
  cursor :: "test_t list option"
  current :: "test_t option"
  last_rc :: int

datatype call =
    Open string
  | Close
  | Exec sql
  | Prepare sql
  | BindText nat nat string
  | BindDouble nat nat double
  | BindInt64 nat nat int
  | Step nat "sql option"
  | ClearBindings nat
  | Reset nat
  | Finalize nat
  | Errmsg

datatype arg = Str string | Dbl double | Num int

text \<open>What the process does that can be observed: calls of the store with the status
  they returned, lines printed, keys waited for.\<close>

datatype event = Store call int | Printf string "arg list" | Getchar

text \<open>
  Modelled from the spec: the platform and the store.
  \<^item> \<open>RAND_MAX\<close>, \<open>CLOCKS_PER_SEC\<close>: the macros of \<^verbatim>\<open>stdlib.h\<close> and \<^verbatim>\<open>time.h\<close>;
  \<^item> \<open>rand_seq\<close>, \<open>rand_pos\<close>: the values \<^verbatim>\<open>rand()\<close> returns, in order, for the generator's
    initial seed, and how many were taken; nothing in the program sets the seed;
  \<^item> \<open>clock_seq\<close>, \<open>clock_pos\<close>: the same for \<^verbatim>\<open>clock()\<close>;
  \<^item> \<open>disk\<close>: the committed rows of table Test in the file \<^verbatim>\<open>test.db\<close> (\<open>None\<close>: no table);
  \<^item> \<open>conn\<close>, \<open>tbl\<close>, \<open>in_txn\<close>, \<open>stmts\<close>, \<open>last_error\<close>: the connection \<^verbatim>\<open>_db\<close>: whether it is
    open, the table as it sees it, whether a transaction is open, its prepared statements
    (a handle is an index, a finalized statement is \<open>None\<close>) and its latest error message;
  \<^item> \<open>fault\<close>, \<open>ncalls\<close>: the failures the environment inflicts on the store (disk full,
    I/O error, lock): the call number \<open>ncalls\<close> fails with the given status and message;
  \<^item> \<open>trace\<close>: the events so far.
\<close>

record world =
  RAND_MAX :: int
  CLOCKS_PER_SEC :: int
  rand_seq :: "nat \<Rightarrow> int"
  rand_pos :: nat
  clock_seq :: "nat \<Rightarrow> int"
  clock_pos :: nat
  disk :: "test_t list option"
  conn :: bool
  tbl :: "test_t list option"
  in_txn :: bool
  stmts :: "stmt option list"
  last_error :: string
  fault :: "nat \<Rightarrow> (int \<times> string) option"
  ncalls :: nat
  trace :: "event list"

section \<open>Programs\<close>

text \<open>
  A C function is a function from the world to an outcome and the world after it:
  it returns a value, or the process exits with a status, or it runs into undefined
  behaviour. \<open>None\<close> is a run that never ends.
\<close>

datatype 'a outcome = Ret 'a | Exit int | Undefined_behaviour

type_synonym 'a prog = "world \<Rightarrow> ('a outcome \<times> world) option"

definition ret :: "'a \<Rightarrow> 'a prog" where
  "ret x w = Some (Ret x, w)"

definition exit :: "int \<Rightarrow> 'a prog" where
  "exit c w = Some (Exit c, w)"

definition undefined_behaviour :: "'a prog" where
  "undefined_behaviour w = Some (Undefined_behaviour, w)"

definition gets :: "(world \<Rightarrow> 'a) \<Rightarrow> 'a prog" where
  "gets f w = Some (Ret (f w), w)"

definition bnd :: "'a prog \<Rightarrow> ('a \<Rightarrow> 'b prog) \<Rightarrow> 'b prog" where
  "bnd m f w =
     (case m w of
        None \<Rightarrow> None
      | Some (Ret x, w1) \<Rightarrow> f x w1
      | Some (Exit c, w1) \<Rightarrow> Some (Exit c, w1)
      | Some (Undefined_behaviour, w1) \<Rightarrow> Some (Undefined_behaviour, w1))"

definition andthen :: "'a prog \<Rightarrow> 'b prog \<Rightarrow> 'b prog" where
  "andthen m p = bnd m (\<lambda>_. p)"

text \<open>A call whose result the code discards.\<close>

definition ignore :: "'a prog \<Rightarrow> unit prog" where
  "ignore m = bnd m (\<lambda>_. ret ())"

text \<open>\<^verbatim>\<open>if (b) { p; }\<close>\<close>

definition if_then :: "bool \<Rightarrow> unit prog \<Rightarrow> unit prog" where
  "if_then b p = (if b then p else ret ())"

fun block :: "unit prog list \<Rightarrow> unit prog" where
  "block [] = ret ()"
| "block (p # ps) = andthen p (block ps)"

text \<open>\<^verbatim>\<open>for (int i = i0; i < n; ++i) body\<close>. With \<open>n \<le> INT_MAX\<close> the increment never overflows.\<close>

function for_loop :: "int \<Rightarrow> int \<Rightarrow> (int \<Rightarrow> unit prog) \<Rightarrow> unit prog" where
  "for_loop i n body = (if i < n then andthen (body i) (for_loop (i + 1) n body) else ret ())"
  by pat_completeness auto
termination
  by (relation "measure (\<lambda>(i, n, body). nat (n - i))") auto

declare for_loop.simps [simp del]

text \<open>\<^verbatim>\<open>while (cond) body\<close>, where evaluating \<open>cond\<close> may change the world.\<close>

partial_function (option) while_loop ::
  "bool prog \<Rightarrow> unit prog \<Rightarrow> world \<Rightarrow> (unit outcome \<times> world) option" where
  "while_loop cond body w =
     (case cond w of
        None \<Rightarrow> None
      | Some (r, w1) \<Rightarrow>
          (case r of
             Ret b \<Rightarrow>
               if b then
                 (case body w1 of
                    None \<Rightarrow> None
                  | Some (r2, w2) \<Rightarrow>
                      (case r2 of
                         Ret u \<Rightarrow> while_loop cond body w2
                       | Exit c \<Rightarrow> Some (Exit c, w2)
                       | Undefined_behaviour \<Rightarrow> Some (Undefined_behaviour, w2)))
               else Some (Ret (), w1)
           | Exit c \<Rightarrow> Some (Exit c, w1)
           | Undefined_behaviour \<Rightarrow> Some (Undefined_behaviour, w1)))"

declare while_loop.simps [code]

section \<open>The C library\<close>

text \<open>Modelled from the spec: \<^verbatim>\<open>stdio.h\<close>, \<^verbatim>\<open>stdlib.h\<close>, \<^verbatim>\<open>string.h\<close> and \<^verbatim>\<open>time.h\<close> are not
  part of the repository.\<close>

definition printf :: "string \<Rightarrow> arg list \<Rightarrow> unit prog" where
  "printf fmt args w = Some (Ret (), w\<lparr>trace := trace w @ [Printf fmt args]\<rparr>)"

definition getchar :: "unit prog" where
  "getchar w = Some (Ret (), w\<lparr>trace := trace w @ [Getchar]\<rparr>)"

definition rand :: "int prog" where
  "rand w = Some (Ret (rand_seq w (rand_pos w)), w\<lparr>rand_pos := Suc (rand_pos w)\<rparr>)"

definition clock :: "int prog" where
  "clock w = Some (Ret (clock_seq w (clock_pos w)), w\<lparr>clock_pos := Suc (clock_pos w)\<rparr>)"

text \<open>\<^verbatim>\<open>remove(DB_FILE_PATH)\<close>: the database file is gone, and table Test with it.\<close>

definition remove_file :: "string \<Rightarrow> unit prog" where
  "remove_file path w = Some (Ret (), w\<lparr>disk := None\<rparr>)"

text \<open>\<^verbatim>\<open>sprintf(key, ...)\<close> into \<^verbatim>\<open>char key[25]\<close>, given the text that is printed.\<close>

definition sprintf_key :: "string \<Rightarrow> string prog" where
  "sprintf_key s = (if fits_key s then ret s else undefined_behaviour)"

text \<open>\<^verbatim>\<open>strcpy(row.key, tmp_key)\<close>; \<open>None\<close> is the null pointer.\<close>

definition strcpy_key :: "string option \<Rightarrow> string prog" where
  "strcpy_key src =
     (case src of
        None \<Rightarrow> undefined_behaviour
      | Some s \<Rightarrow> if fits_key s then ret s else undefined_behaviour)"

section \<open>The store\<close>

text \<open>
  Modelled from the spec: the operations of section 6, with the behaviour the SQLite
  documentation gives them for the statements of this program. Rows are kept in the
  order they were inserted. Rows with NULL fields are outside the model: a step that
  would need one is answered with \<open>SQLITE_MISMATCH\<close>.
\<close>

definition injected :: "world \<Rightarrow> (int \<times> string) option" where
  "injected w =
     (case fault w (ncalls w) of
        None \<Rightarrow> None
      | Some (rc, msg) \<Rightarrow>
          if rc = SQLITE_OK \<or> rc = SQLITE_ROW \<or> rc = SQLITE_DONE then None else Some (rc, msg))"

definition logged :: "call \<Rightarrow> int \<Rightarrow> world \<Rightarrow> world" where
  "logged c rc w = w\<lparr>ncalls := Suc (ncalls w), trace := trace w @ [Store c rc]\<rparr>"

definition failed :: "call \<Rightarrow> int \<Rightarrow> string \<Rightarrow> world \<Rightarrow> world" where
  "failed c rc msg w = logged c rc (w\<lparr>last_error := msg\<rparr>)"

definition misuse :: string where
  "misuse = ''bad parameter or other API misuse''"

text \<open>Outside a transaction every change is committed at once.\<close>

definition autocommit :: "world \<Rightarrow> world" where
  "autocommit w = (if in_txn w then w else w\<lparr>disk := tbl w\<rparr>)"

definition get_stmt :: "world \<Rightarrow> nat \<Rightarrow> stmt option" where
  "get_stmt w h = (if h < length (stmts w) then stmts w ! h else None)"

definition put_stmt :: "nat \<Rightarrow> stmt option \<Rightarrow> world \<Rightarrow> world" where
  "put_stmt h s w = w\<lparr>stmts := (stmts w)[h := s]\<rparr>"

definition new_stmt :: "sql \<Rightarrow> stmt" where
  "new_stmt q = \<lparr>stmt_sql = q, params = (\<lambda>_. None), cursor = None, current = None,
                 last_rc = SQLITE_OK\<rparr>"

fun nparams :: "sql \<Rightarrow> nat" where
  "nparams INSERT_PARAMS = 5"
| "nparams UPDATE_WHERE_key = 5"
| "nparams UPDATE_WHERE_rowid = 5"
| "nparams q = 0"

fun preparable :: "sql \<Rightarrow> bool" where
  "preparable INSERT_PARAMS = True"
| "preparable SELECT_ORDER_BY_key = True"
| "preparable UPDATE_WHERE_key = True"
| "preparable SELECT_ORDER_BY_rowid = True"
| "preparable UPDATE_WHERE_rowid = True"
| "preparable q = False"

fun as_text :: "sqlval option \<Rightarrow> string option" where
  "as_text (Some (Text s)) = Some s"
| "as_text v = None"

fun as_real :: "sqlval option \<Rightarrow> double option" where
  "as_real (Some (Real x)) = Some x"
| "as_real v = None"

fun as_integer :: "sqlval option \<Rightarrow> int option" where
  "as_integer (Some (Integer i)) = Some i"
| "as_integer v = None"

text \<open>A new row gets the largest rowid in use plus one, and 1 in an empty table.\<close>

definition next_rowid :: "test_t list \<Rightarrow> int" where
  "next_rowid rows = (if rows = [] then 1 else Max (set (map rowid rows)) + 1)"

text \<open>INSERT of one row: the table must exist, and the primary key must be new.\<close>

definition store_insert ::
  "string \<Rightarrow> double \<Rightarrow> double \<Rightarrow> double \<Rightarrow> double \<Rightarrow> world \<Rightarrow> (int \<times> string) + world" where
  "store_insert k a b c d w =
     (case tbl w of
        None \<Rightarrow> Inl (SQLITE_ERROR, ''no such table: Test'')
      | Some rows \<Rightarrow>
          if k \<in> set (map key rows) then
            Inl (SQLITE_CONSTRAINT, ''UNIQUE constraint failed: Test.key'')
          else if rows \<noteq> [] \<and> Max (set (map rowid rows)) = INT64_MAX then
            Inl (SQLITE_FULL, ''database or disk is full'')
          else
            Inr (autocommit (w\<lparr>tbl := Some (rows @
              [\<lparr>rowid = next_rowid rows, key = k, num1 = a, num2 = b, num3 = c, num4 = d\<rparr>])\<rparr>)))"

definition set_nums :: "double \<Rightarrow> double \<Rightarrow> double \<Rightarrow> double \<Rightarrow> test_t \<Rightarrow> test_t" where
  "set_nums a b c d r = r\<lparr>num1 := a, num2 := b, num3 := c, num4 := d\<rparr>"

text \<open>UPDATE of the rows that satisfy the WHERE clause.\<close>

definition store_update ::
  "(test_t \<Rightarrow> bool) \<Rightarrow> double \<Rightarrow> double \<Rightarrow> double \<Rightarrow> double \<Rightarrow> world \<Rightarrow> (int \<times> string) + world" where
  "store_update wh a b c d w =
     (case tbl w of
        None \<Rightarrow> Inl (SQLITE_ERROR, ''no such table: Test'')
      | Some rows \<Rightarrow>
          Inr (autocommit (w\<lparr>tbl := Some (map (\<lambda>r. if wh r then set_nums a b c d r else r) rows)\<rparr>)))"

definition step_insert :: "stmt \<Rightarrow> world \<Rightarrow> (int \<times> string) + world" where
  "step_insert s w =
     (case (as_text (params s 1), as_real (params s 2), as_real (params s 3),
            as_real (params s 4), as_real (params s 5)) of
        (Some k, Some a, Some b, Some c, Some d) \<Rightarrow> store_insert k a b c d w
      | _ \<Rightarrow> Inl (SQLITE_MISMATCH, ''datatype mismatch''))"

definition step_update_key :: "stmt \<Rightarrow> world \<Rightarrow> (int \<times> string) + world" where
  "step_update_key s w =
     (case (as_real (params s 1), as_real (params s 2), as_real (params s 3),
            as_real (params s 4), as_text (params s 5)) of
        (Some a, Some b, Some c, Some d, Some k) \<Rightarrow> store_update (\<lambda>r. key r = k) a b c d w
      | _ \<Rightarrow> Inl (SQLITE_MISMATCH, ''datatype mismatch''))"

definition step_update_rowid :: "stmt \<Rightarrow> world \<Rightarrow> (int \<times> string) + world" where
  "step_update_rowid s w =
     (case (as_real (params s 1), as_real (params s 2), as_real (params s 3),
            as_real (params s 4), as_integer (params s 5)) of
        (Some a, Some b, Some c, Some d, Some i) \<Rightarrow> store_update (\<lambda>r. rowid r = i) a b c d w
      | _ \<Rightarrow> Inl (SQLITE_MISMATCH, ''datatype mismatch''))"

text \<open>
  The step of an INSERT or UPDATE statement: \<open>SQLITE_DONE\<close> when the change is made, the
  error status otherwise.
\<close>

definition step_mutation :: "nat \<Rightarrow> stmt \<Rightarrow> (int \<times> string) + world \<Rightarrow> world \<Rightarrow> (int outcome \<times> world) option" where
  "step_mutation h s res w =
     (case res of
        Inl (rc, msg) \<Rightarrow>
          Some (Ret rc, failed (Step h (Some (stmt_sql s))) rc msg (put_stmt h (Some (s\<lparr>last_rc := rc\<rparr>)) w))
      | Inr w1 \<Rightarrow> Some (Ret SQLITE_DONE, logged (Step h (Some (stmt_sql s))) SQLITE_DONE w1))"

text \<open>
  The step of a SELECT: the first step fixes the rows to deliver, in the order the
  statement asks for; every step moves to the next row (\<open>SQLITE_ROW\<close>), and after the last
  one the statement is done and starts over at its next step.
\<close>

definition step_select :: "(test_t list \<Rightarrow> test_t list) \<Rightarrow> nat \<Rightarrow> stmt \<Rightarrow> world \<Rightarrow> (int outcome \<times> world) option" where
  "step_select order h s w =
     (case tbl w of
        None \<Rightarrow>
          Some (Ret SQLITE_ERROR, failed (Step h (Some (stmt_sql s))) SQLITE_ERROR ''no such table: Test''
                  (put_stmt h (Some (s\<lparr>last_rc := SQLITE_ERROR\<rparr>)) w))
      | Some rows \<Rightarrow>
          (case (case cursor s of None \<Rightarrow> order rows | Some pending \<Rightarrow> pending) of
             [] \<Rightarrow>
               Some (Ret SQLITE_DONE, logged (Step h (Some (stmt_sql s))) SQLITE_DONE
                       (put_stmt h (Some (s\<lparr>cursor := None, current := None\<rparr>)) w))
           | r # rest \<Rightarrow>
               Some (Ret SQLITE_ROW, logged (Step h (Some (stmt_sql s))) SQLITE_ROW
                       (put_stmt h (Some (s\<lparr>cursor := Some rest, current := Some r\<rparr>)) w))))"

definition sqlite3_open :: "string \<Rightarrow> int prog" where
  "sqlite3_open path w =
     (case injected w of
        Some (rc, msg) \<Rightarrow> Some (Ret rc, failed (Open path) rc msg w)
      | None \<Rightarrow>
          Some (Ret SQLITE_OK, logged (Open path) SQLITE_OK
                  (w\<lparr>conn := True, tbl := disk w, in_txn := False, stmts := []\<rparr>)))"

text \<open>Closing fails while a statement is not finalized; it abandons an open transaction.\<close>

definition sqlite3_close :: "int prog" where
  "sqlite3_close w =
     (case injected w of
        Some (rc, msg) \<Rightarrow> Some (Ret rc, failed Close rc msg w)
      | None \<Rightarrow>
          if \<not> conn w then Some (Ret SQLITE_MISUSE, failed Close SQLITE_MISUSE misuse w)
          else if \<exists>s \<in> set (stmts w). s \<noteq> None then
            Some (Ret SQLITE_BUSY, failed Close SQLITE_BUSY
                    ''unable to close due to unfinalized statements or unfinished backups'' w)
          else
            Some (Ret SQLITE_OK, logged Close SQLITE_OK
                    (w\<lparr>conn := False, tbl := disk w, in_txn := False\<rparr>)))"

definition exec_sql :: "sql \<Rightarrow> world \<Rightarrow> (int \<times> string) + world" where
  "exec_sql q w =
     (case q of
        CREATE_TABLE_IF_NOT_EXISTS \<Rightarrow>
          Inr (autocommit (w\<lparr>tbl := Some (case tbl w of None \<Rightarrow> [] | Some rows \<Rightarrow> rows)\<rparr>))
      | BEGIN_TRANSACTION \<Rightarrow>
          if in_txn w then Inl (SQLITE_ERROR, ''cannot start a transaction within a transaction'')
          else Inr (w\<lparr>in_txn := True\<rparr>)
      | COMMIT_TRANSACTION \<Rightarrow>
          if in_txn w then Inr (w\<lparr>in_txn := False, disk := tbl w\<rparr>)
          else Inl (SQLITE_ERROR, ''cannot commit - no transaction is active'')
      | INSERT_VALUES k a b c d \<Rightarrow>
          (case (a, b, c, d) of
             (Some a1, Some b1, Some c1, Some d1) \<Rightarrow>
               store_insert k (Finite (fl a1)) (Finite (fl b1)) (Finite (fl c1)) (Finite (fl d1)) w
           | _ \<Rightarrow> Inl (SQLITE_ERROR, ''no such column''))
      | _ \<Rightarrow> Inl (SQLITE_MISUSE, misuse))"

definition sqlite3_exec :: "sql \<Rightarrow> int prog" where
  "sqlite3_exec q w =
     (case injected w of
        Some (rc, msg) \<Rightarrow> Some (Ret rc, failed (Exec q) rc msg w)
      | None \<Rightarrow>
          if \<not> conn w then Some (Ret SQLITE_MISUSE, failed (Exec q) SQLITE_MISUSE misuse w)
          else
            (case exec_sql q w of
               Inl (rc, msg) \<Rightarrow> Some (Ret rc, failed (Exec q) rc msg w)
             | Inr w1 \<Rightarrow> Some (Ret SQLITE_OK, logged (Exec q) SQLITE_OK w1)))"

text \<open>\<^verbatim>\<open>sqlite3_prepare_v3\<close> returns the status and, through its pointer argument, the handle.\<close>

definition sqlite3_prepare_v3 :: "sql \<Rightarrow> (int \<times> nat) prog" where
  "sqlite3_prepare_v3 q w =
     (case injected w of
        Some (rc, msg) \<Rightarrow> Some (Ret (rc, 0), failed (Prepare q) rc msg w)
      | None \<Rightarrow>
          if \<not> conn w \<or> \<not> preparable q then
            Some (Ret (SQLITE_MISUSE, 0), failed (Prepare q) SQLITE_MISUSE misuse w)
          else if tbl w = None then
            Some (Ret (SQLITE_ERROR, 0), failed (Prepare q) SQLITE_ERROR ''no such table: Test'' w)
          else
            Some (Ret (SQLITE_OK, length (stmts w)), logged (Prepare q) SQLITE_OK
                    (w\<lparr>stmts := stmts w @ [Some (new_stmt q)]\<rparr>)))"

definition bind_value :: "call \<Rightarrow> nat \<Rightarrow> nat \<Rightarrow> sqlval \<Rightarrow> int prog" where
  "bind_value c h idx v w =
     (case get_stmt w h of
        None \<Rightarrow> Some (Ret SQLITE_MISUSE, failed c SQLITE_MISUSE misuse w)
      | Some s \<Rightarrow>
          if 1 \<le> idx \<and> idx \<le> nparams (stmt_sql s) then
            Some (Ret SQLITE_OK, logged c SQLITE_OK
                    (put_stmt h (Some (s\<lparr>params := (params s)(idx \<mapsto> v)\<rparr>)) w))
          else Some (Ret SQLITE_RANGE, failed c SQLITE_RANGE ''column index out of range'' w))"

definition sqlite3_bind_text :: "nat \<Rightarrow> nat \<Rightarrow> string \<Rightarrow> int prog" where
  "sqlite3_bind_text h idx s = bind_value (BindText h idx s) h idx (Text s)"

definition sqlite3_bind_double :: "nat \<Rightarrow> nat \<Rightarrow> double \<Rightarrow> int prog" where
  "sqlite3_bind_double h idx x = bind_value (BindDouble h idx x) h idx (Real x)"

definition sqlite3_bind_int64 :: "nat \<Rightarrow> nat \<Rightarrow> int \<Rightarrow> int prog" where
  "sqlite3_bind_int64 h idx i = bind_value (BindInt64 h idx i) h idx (Integer i)"

definition sqlite3_step :: "nat \<Rightarrow> int prog" where
  "sqlite3_step h w =
     (case get_stmt w h of
        None \<Rightarrow> Some (Ret SQLITE_MISUSE, failed (Step h None) SQLITE_MISUSE misuse w)
      | Some s \<Rightarrow>
          (case injected w of
             Some (rc, msg) \<Rightarrow>
               Some (Ret rc, failed (Step h (Some (stmt_sql s))) rc msg
                       (put_stmt h (Some (s\<lparr>last_rc := rc\<rparr>)) w))
           | None \<Rightarrow>
               (case stmt_sql s of
                  INSERT_PARAMS \<Rightarrow> step_mutation h s (step_insert s w) w
                | UPDATE_WHERE_key \<Rightarrow> step_mutation h s (step_update_key s w) w
                | UPDATE_WHERE_rowid \<Rightarrow> step_mutation h s (step_update_rowid s w) w
                | SELECT_ORDER_BY_key \<Rightarrow> step_select (sort_key key) h s w
                | SELECT_ORDER_BY_rowid \<Rightarrow> step_select (sort_key rowid) h s w
                | _ \<Rightarrow> Some (Ret SQLITE_MISUSE, failed (Step h (Some (stmt_sql s))) SQLITE_MISUSE misuse w))))"

definition sqlite3_clear_bindings :: "nat \<Rightarrow> int prog" where
  "sqlite3_clear_bindings h w =
     (case get_stmt w h of
        None \<Rightarrow> Some (Ret SQLITE_MISUSE, failed (ClearBindings h) SQLITE_MISUSE misuse w)
      | Some s \<Rightarrow>
          Some (Ret SQLITE_OK, logged (ClearBindings h) SQLITE_OK
                  (put_stmt h (Some (s\<lparr>params := (\<lambda>_. None)\<rparr>)) w)))"

text \<open>Reset and finalize return the status of the statement's latest step.\<close>

definition sqlite3_reset :: "nat \<Rightarrow> int prog" where
  "sqlite3_reset h w =
     (case get_stmt w h of
        None \<Rightarrow> Some (Ret SQLITE_MISUSE, failed (Reset h) SQLITE_MISUSE misuse w)
      | Some s \<Rightarrow>
          Some (Ret (last_rc s), logged (Reset h) (last_rc s)
                  (put_stmt h (Some (s\<lparr>cursor := None, current := None, last_rc := SQLITE_OK\<rparr>)) w)))"

definition sqlite3_finalize :: "nat \<Rightarrow> int prog" where
  "sqlite3_finalize h w =
     (case get_stmt w h of
        None \<Rightarrow> Some (Ret SQLITE_MISUSE, failed (Finalize h) SQLITE_MISUSE misuse w)
      | Some s \<Rightarrow>
          Some (Ret (last_rc s), logged (Finalize h) (last_rc s) (put_stmt h None w)))"

definition sqlite3_errmsg :: "string prog" where
  "sqlite3_errmsg w = Some (Ret (last_error w), logged Errmsg SQLITE_OK w)"

text \<open>
  The column accessors read the row the statement is on. Column 0 is the key of
  \<open>SELECT_ORDER_BY_key\<close> and the rowid of \<open>SELECT_ORDER_BY_rowid\<close>; columns 1 to 4 are the
  four numbers. Without a row the text is the null pointer and a number is 0.
\<close>

definition sqlite3_column_text :: "nat \<Rightarrow> nat \<Rightarrow> string option prog" where
  "sqlite3_column_text h col =
     gets (\<lambda>w. case get_stmt w h of
                  None \<Rightarrow> None
                | Some s \<Rightarrow>
                    (case current s of
                       None \<Rightarrow> None
                     | Some r \<Rightarrow> if stmt_sql s = SELECT_ORDER_BY_key \<and> col = 0 then Some (key r) else None))"

definition sqlite3_column_double :: "nat \<Rightarrow> nat \<Rightarrow> double prog" where
  "sqlite3_column_double h col =
     gets (\<lambda>w. case get_stmt w h of
                  None \<Rightarrow> Finite 0
                | Some s \<Rightarrow>
                    (case current s of
                       None \<Rightarrow> Finite 0
                     | Some r \<Rightarrow>
                         if col = 1 then num1 r else if col = 2 then num2 r
                         else if col = 3 then num3 r else if col = 4 then num4 r
                         else Finite 0))"

definition sqlite3_column_int64 :: "nat \<Rightarrow> nat \<Rightarrow> int prog" where
  "sqlite3_column_int64 h col =
     gets (\<lambda>w. case get_stmt w h of
                  None \<Rightarrow> 0
                | Some s \<Rightarrow>
                    (case current s of
                       None \<Rightarrow> 0
                     | Some r \<Rightarrow> if stmt_sql s = SELECT_ORDER_BY_rowid \<and> col = 0 then rowid r else 0))"

section \<open>The program: main.c\<close>

definition DASHES :: string where
  "DASHES = ''----------------------------------------''"

text \<open>\<^verbatim>\<open>die_db_error\<close>, lines 109 to 116.\<close>

definition die_db_error :: "unit prog" where
  "die_db_error =
     bnd sqlite3_errmsg (\<lambda>msg.
     andthen (printf ''SQLite Error - %s\<newline>'' [Str msg])
    (andthen (printf ''PRESS ANY KEY TO EXIT.\<newline>'' [])
    (andthen getchar
             (exit (- 1)))))"

text \<open>\<^verbatim>\<open>open_database\<close>, lines 123 to 134 (\<^verbatim>\<open>MEMORY_MODE\<close> is not defined).\<close>

definition open_database :: "unit prog" where
  "open_database =
     andthen (remove_file DB_FILE_PATH)
    (bnd (sqlite3_open DB_FILE_PATH) (\<lambda>rc.
     if_then (rc \<noteq> SQLITE_OK) die_db_error))"

text \<open>\<^verbatim>\<open>close_database\<close>, lines 140 to 146.\<close>

definition close_database :: "unit prog" where
  "close_database =
     bnd sqlite3_close (\<lambda>rc.
     if_then (rc \<noteq> SQLITE_OK) die_db_error)"

text \<open>\<^verbatim>\<open>setup_test\<close>, lines 154 to 170.\<close>

definition setup_test :: "unit prog" where
  "setup_test =
     bnd (sqlite3_exec CREATE_TABLE_IF_NOT_EXISTS) (\<lambda>rc.
     if_then (rc \<noteq> SQLITE_OK) die_db_error)"

text \<open>\<^verbatim>\<open>rand_double\<close>, lines 219 to 221.\<close>

definition rand_double :: "double prog" where
  "rand_double =
     bnd rand (\<lambda>r.
     bnd (gets RAND_MAX) (\<lambda>rand_max.
     ret (rand_double_of rand_max r)))"

text \<open>
  \<^verbatim>\<open>insert_rows\<close>, lines 228 to 257: the body of the loop for index \<open>i\<close>, and the loop. The
  functions that loop over \<^verbatim>\<open>NUM_EXECUTIONS\<close> rows take the row count as their argument \<open>n\<close>.
\<close>

definition insert_rows_body :: "int \<Rightarrow> unit prog" where
  "insert_rows_body i =
     bnd (sprintf_key (insert_rows_key i)) (\<lambda>key.
     bnd rand_double (\<lambda>num1.
     bnd rand_double (\<lambda>num2.
     bnd rand_double (\<lambda>num3.
     bnd rand_double (\<lambda>num4.
     bnd (sqlite3_exec (INSERT_VALUES key (printf_f num1) (printf_f num2) (printf_f num3) (printf_f num4))) (\<lambda>rc.
     if_then (rc \<noteq> SQLITE_OK) die_db_error))))))"

definition insert_rows :: "int \<Rightarrow> unit prog" where
  "insert_rows n = for_loop 0 n insert_rows_body"

text \<open>\<^verbatim>\<open>insert_rows_xact\<close>, lines 263 to 301.\<close>

definition insert_rows_xact_body :: "int \<Rightarrow> unit prog" where
  "insert_rows_xact_body i =
     bnd (sprintf_key (insert_rows_xact_key i)) (\<lambda>key.
     bnd rand_double (\<lambda>num1.
     bnd rand_double (\<lambda>num2.
     bnd rand_double (\<lambda>num3.
     bnd rand_double (\<lambda>num4.
     bnd (sqlite3_exec (INSERT_VALUES key (printf_f num1) (printf_f num2) (printf_f num3) (printf_f num4))) (\<lambda>rc.
     if_then (rc \<noteq> SQLITE_OK) die_db_error))))))"

definition insert_rows_xact :: "int \<Rightarrow> unit prog" where
  "insert_rows_xact n =
     andthen (bnd (sqlite3_exec BEGIN_TRANSACTION) (\<lambda>rc. if_then (rc \<noteq> SQLITE_OK) die_db_error))
    (andthen (for_loop 0 n insert_rows_xact_body)
             (bnd (sqlite3_exec COMMIT_TRANSACTION) (\<lambda>rc. if_then (rc \<noteq> SQLITE_OK) die_db_error)))"

text \<open>\<^verbatim>\<open>insert_rows_xact_prepared\<close>, lines 308 to 370.\<close>

definition insert_rows_xact_prepared_body :: "nat \<Rightarrow> int \<Rightarrow> unit prog" where
  "insert_rows_xact_prepared_body stmt i =
     bnd (sprintf_key (insert_rows_xact_prepared_key i)) (\<lambda>key.
     bnd rand_double (\<lambda>num1.
     bnd rand_double (\<lambda>num2.
     bnd rand_double (\<lambda>num3.
     bnd rand_double (\<lambda>num4.
     block
       [ignore (sqlite3_bind_text stmt 1 key),
        ignore (sqlite3_bind_double stmt 2 num1),
        ignore (sqlite3_bind_double stmt 3 num2),
        ignore (sqlite3_bind_double stmt 4 num3),
        ignore (sqlite3_bind_double stmt 5 num4),
        bnd (sqlite3_step stmt) (\<lambda>rc. if_then (rc \<noteq> SQLITE_DONE) die_db_error),
        ignore (sqlite3_clear_bindings stmt),
        ignore (sqlite3_reset stmt)])))))"

definition insert_rows_xact_prepared :: "int \<Rightarrow> unit prog" where
  "insert_rows_xact_prepared n =
     andthen (bnd (sqlite3_exec BEGIN_TRANSACTION) (\<lambda>rc. if_then (rc \<noteq> SQLITE_OK) die_db_error))
    (bnd (sqlite3_prepare_v3 INSERT_PARAMS) (\<lambda>(rc, stmt).
     andthen (if_then (rc \<noteq> SQLITE_OK) die_db_error)
    (andthen (for_loop 0 n (insert_rows_xact_prepared_body stmt))
    (andthen (bnd (sqlite3_exec COMMIT_TRANSACTION) (\<lambda>rc. if_then (rc \<noteq> SQLITE_OK) die_db_error))
             (ignore (sqlite3_finalize stmt))))))"

text \<open>\<^verbatim>\<open>setup_update_test\<close>, lines 177 to 180.\<close>

definition setup_update_test :: "int \<Rightarrow> unit prog" where
  "setup_update_test n = andthen setup_test (insert_rows_xact_prepared n)"

text \<open>\<^verbatim>\<open>update_rows_pk\<close>, lines 377 to 465: the body of the loop, and the function.\<close>

definition update_rows_pk_body :: "nat \<Rightarrow> nat \<Rightarrow> unit prog" where
  "update_rows_pk_body sel_stmt up_stmt =
     bnd (sqlite3_column_text sel_stmt 0) (\<lambda>tmp_key.
     bnd (strcpy_key tmp_key) (\<lambda>row_key.
     bnd (sqlite3_column_double sel_stmt 1) (\<lambda>row_num1.
     bnd (sqlite3_column_double sel_stmt 2) (\<lambda>row_num2.
     bnd (sqlite3_column_double sel_stmt 3) (\<lambda>row_num3.
     bnd (sqlite3_column_double sel_stmt 4) (\<lambda>row_num4.
     block
       [ignore (sqlite3_bind_double up_stmt 1 (double_incr row_num1)),
        ignore (sqlite3_bind_double up_stmt 2 (double_incr row_num2)),
        ignore (sqlite3_bind_double up_stmt 3 (double_incr row_num3)),
        ignore (sqlite3_bind_double up_stmt 4 (double_incr row_num4)),
        ignore (sqlite3_bind_text up_stmt 5 row_key),
        bnd (sqlite3_step up_stmt) (\<lambda>up_rc. if_then (up_rc \<noteq> SQLITE_DONE) die_db_error),
        ignore (sqlite3_reset up_stmt),
        ignore (sqlite3_clear_bindings up_stmt)]))))))"

definition update_rows_pk :: "unit prog" where
  "update_rows_pk =
     andthen (bnd (sqlite3_exec BEGIN_TRANSACTION) (\<lambda>rc. if_then (rc \<noteq> SQLITE_OK) die_db_error))
    (bnd (sqlite3_prepare_v3 SELECT_ORDER_BY_key) (\<lambda>(rc, sel_stmt).
     andthen (if_then (rc \<noteq> SQLITE_OK) die_db_error)
    (bnd (sqlite3_prepare_v3 UPDATE_WHERE_key) (\<lambda>(rc, up_stmt).
     andthen (if_then (rc \<noteq> SQLITE_OK) die_db_error)
    (andthen (while_loop (bnd (sqlite3_step sel_stmt) (\<lambda>rc. ret (rc = SQLITE_ROW)))
                         (update_rows_pk_body sel_stmt up_stmt))
    (andthen (bnd (sqlite3_exec COMMIT_TRANSACTION) (\<lambda>rc. if_then (rc \<noteq> SQLITE_OK) die_db_error))
    (andthen (ignore (sqlite3_finalize sel_stmt))
             (ignore (sqlite3_finalize up_stmt)))))))))"

text \<open>\<^verbatim>\<open>update_rows_rowid\<close>, lines 473 to 556.\<close>

definition update_rows_rowid_body :: "nat \<Rightarrow> nat \<Rightarrow> unit prog" where
  "update_rows_rowid_body sel_stmt up_stmt =
     bnd (sqlite3_column_int64 sel_stmt 0) (\<lambda>row_rowid.
     bnd (sqlite3_column_double sel_stmt 1) (\<lambda>row_num1.
     bnd (sqlite3_column_double sel_stmt 2) (\<lambda>row_num2.
     bnd (sqlite3_column_double sel_stmt 3) (\<lambda>row_num3.
     bnd (sqlite3_column_double sel_stmt 4) (\<lambda>row_num4.
     block
       [ignore (sqlite3_bind_double up_stmt 1 (double_incr row_num1)),
        ignore (sqlite3_bind_double up_stmt 2 (double_incr row_num2)),
        ignore (sqlite3_bind_double up_stmt 3 (double_incr row_num3)),
        ignore (sqlite3_bind_double up_stmt 4 (double_incr row_num4)),
        ignore (sqlite3_bind_int64 up_stmt 5 row_rowid),
        bnd (sqlite3_step up_stmt) (\<lambda>up_rc. if_then (up_rc \<noteq> SQLITE_DONE) die_db_error),
        ignore (sqlite3_reset up_stmt),
        ignore (sqlite3_clear_bindings up_stmt)])))))"

definition update_rows_rowid :: "unit prog" where
  "update_rows_rowid =
     andthen (bnd (sqlite3_exec BEGIN_TRANSACTION) (\<lambda>rc. if_then (rc \<noteq> SQLITE_OK) die_db_error))
    (bnd (sqlite3_prepare_v3 SELECT_ORDER_BY_rowid) (\<lambda>(rc, sel_stmt).
     andthen (if_then (rc \<noteq> SQLITE_OK) die_db_error)
    (bnd (sqlite3_prepare_v3 UPDATE_WHERE_rowid) (\<lambda>(rc, up_stmt).
     andthen (if_then (rc \<noteq> SQLITE_OK) die_db_error)
    (andthen (while_loop (bnd (sqlite3_step sel_stmt) (\<lambda>rc. ret (rc = SQLITE_ROW)))
                         (update_rows_rowid_body sel_stmt up_stmt))
    (andthen (bnd (sqlite3_exec COMMIT_TRANSACTION) (\<lambda>rc. if_then (rc \<noteq> SQLITE_OK) die_db_error))
    (andthen (ignore (sqlite3_finalize sel_stmt))
             (ignore (sqlite3_finalize up_stmt)))))))))"

text \<open>
  \<^verbatim>\<open>time_test_execution\<close>, lines 187 to 213 (\<^verbatim>\<open>PRAGMA_JOURNAL_MEM\<close> is not defined). The
  function pointer \<open>setup_fun\<close> may be null; \<open>n\<close> is \<^verbatim>\<open>NUM_EXECUTIONS\<close>.
\<close>

definition time_test_execution :: "int \<Rightarrow> string \<Rightarrow> unit prog \<Rightarrow> unit prog option \<Rightarrow> unit prog" where
  "time_test_execution n test_name fun setup_fun =
     andthen open_database
    (andthen (case setup_fun of None \<Rightarrow> ret () | Some setup \<Rightarrow> setup)
    (bnd clock (\<lambda>start.
     andthen fun
    (bnd clock (\<lambda>end.
     andthen close_database
    (bnd (gets CLOCKS_PER_SEC) (\<lambda>clocks_per_sec.
     printf ''%30s %12.2f %12.2f\<newline>''
       [Str test_name,
        Dbl (elapsed_seconds clocks_per_sec start end),
        Dbl (rows_per_sec n (elapsed_seconds clocks_per_sec start end))])))))))"

text \<open>\<^verbatim>\<open>main\<close>, lines 72 to 103; the program is \<open>main NUM_EXECUTIONS\<close>.\<close>

definition main :: "int \<Rightarrow> unit prog" where
  "main n =
     block
       [printf ''SQLite Performance Demo\<newline>'' [],
        printf ''Testing with %d rows.\<newline>\<newline>'' [Num n],
        printf ''TESTING INSERTS\<newline>'' [],
        printf ''%-30s %-15s %-15s\<newline>'' [Str ''Test'', Str ''Time (sec)'', Str ''Rows/sec''],
        printf ''%.30s %.15s %.15s\<newline>'' [Str DASHES, Str DASHES, Str DASHES],
        printf ''%30s %15s %15s\<newline>'' [Str ''Insert Rows (no xact)'', Str ''ommitted'', Str ''ommitted''],
        time_test_execution n ''Insert Rows (xact)'' (insert_rows_xact n) (Some setup_test),
        time_test_execution n ''Insert Rows (xact, prep)'' (insert_rows_xact_prepared n) (Some setup_test),
        printf ''\<newline>'' [],
        printf ''TESTING UPDATES\<newline>'' [],
        printf ''%-30s %-15s %-15s\<newline>'' [Str ''Test'', Str ''Time (sec)'', Str ''Rows/sec''],
        printf ''%.30s %.15s %.15s\<newline>'' [Str DASHES, Str DASHES, Str DASHES],
        time_test_execution n ''Update Rows PK'' update_rows_pk (Some (setup_update_test n)),
        time_test_execution n ''Update Rows ROWID'' update_rows_rowid (Some (setup_update_test n)),
        printf ''\<newline>\<newline>'' [],
        printf ''Tests completed.\<newline>'' [],
        printf ''PRESS ANY KEY TO EXIT\<newline>'' [],
        getchar]"

section \<open>Specifications\<close>

text \<open>
  \<open>triple P p Q E\<close>: started in a world that satisfies \<open>P\<close>, the program \<open>p\<close> ends, without
  undefined behaviour; when it returns \<open>x\<close> the world satisfies \<open>Q x\<close>, and when the process
  exits with status \<open>c\<close> the world satisfies \<open>E c\<close>.
\<close>

definition triple ::
  "(world \<Rightarrow> bool) \<Rightarrow> 'a prog \<Rightarrow> ('a \<Rightarrow> world \<Rightarrow> bool) \<Rightarrow> (int \<Rightarrow> world \<Rightarrow> bool) \<Rightarrow> bool" where
  "triple P p Q E =
     (\<forall>w. P w \<longrightarrow>
        (\<exists>r w'. p w = Some (r, w') \<and>
           (case r of Ret x \<Rightarrow> Q x w' | Exit c \<Rightarrow> E c w' | Undefined_behaviour \<Rightarrow> False)))"

text \<open>The store does what it is asked: the environment inflicts no failure.\<close>

definition no_faults :: "world \<Rightarrow> bool" where
  "no_faults w = (\<forall>k. fault w k = None)"

text \<open>
  The calls whose status the claims call checked, when they fail: open, close, exec and
  prepare with a status other than \<open>SQLITE_OK\<close>, and the step of an INSERT or UPDATE statement
  with a status other than \<open>SQLITE_DONE\<close>.
\<close>

fun mutation :: "sql \<Rightarrow> bool" where
  "mutation INSERT_PARAMS = True"
| "mutation UPDATE_WHERE_key = True"
| "mutation UPDATE_WHERE_rowid = True"
| "mutation q = False"

fun fatal :: "event \<Rightarrow> bool" where
  "fatal (Store (Open path) rc) = (rc \<noteq> SQLITE_OK)"
| "fatal (Store Close rc) = (rc \<noteq> SQLITE_OK)"
| "fatal (Store (Exec q) rc) = (rc \<noteq> SQLITE_OK)"
| "fatal (Store (Prepare q) rc) = (rc \<noteq> SQLITE_OK)"
| "fatal (Store (Step h (Some q)) rc) = (mutation q \<and> rc \<noteq> SQLITE_DONE)"
| "fatal e = False"

definition clean :: "event list \<Rightarrow> bool" where
  "clean es = (\<forall>e \<in> set es. \<not> fatal e)"

text \<open>What \<^verbatim>\<open>die_db_error\<close> leaves in the trace, and the state of a process that died.\<close>

definition die_events :: "string \<Rightarrow> event list" where
  "die_events msg =
     [Store Errmsg SQLITE_OK,
      Printf ''SQLite Error - %s\<newline>'' [Str msg],
      Printf ''PRESS ANY KEY TO EXIT.\<newline>'' [],
      Getchar]"

definition died :: "int \<Rightarrow> world \<Rightarrow> bool" where
  "died c w = (c = - 1 \<and> (\<exists>es e. trace w = es @ [e] @ die_events (last_error w) \<and> clean es \<and> fatal e))"

text \<open>Every key the store holds fits the 25-byte buffers.\<close>

definition rows_fit :: "test_t list \<Rightarrow> bool" where
  "rows_fit rows = (\<forall>r \<in> set rows. fits_key (key r))"

definition stmt_fits :: "stmt option \<Rightarrow> bool" where
  "stmt_fits so =
     (case so of
        None \<Rightarrow> True
      | Some s \<Rightarrow>
          (case cursor s of None \<Rightarrow> True | Some p \<Rightarrow> rows_fit p) \<and>
          (case current s of None \<Rightarrow> True | Some r \<Rightarrow> fits_key (key r)) \<and>
          (\<forall>i k. params s i = Some (Text k) \<longrightarrow> fits_key k))"

definition keys_fit :: "world \<Rightarrow> bool" where
  "keys_fit w =
     ((case tbl w of None \<Rightarrow> True | Some rows \<Rightarrow> rows_fit rows) \<and>
      (case disk w of None \<Rightarrow> True | Some rows \<Rightarrow> rows_fit rows) \<and>
      (\<forall>so \<in> set (stmts w). stmt_fits so))"

definition safe :: "world \<Rightarrow> bool" where
  "safe w = (clean (trace w) \<and> keys_fit w)"

text \<open>The statement with handle \<open>h\<close> is open and has the text \<open>q\<close>.\<close>

definition is_stmt :: "world \<Rightarrow> nat \<Rightarrow> sql \<Rightarrow> bool" where
  "is_stmt w h q = (case get_stmt w h of None \<Rightarrow> False | Some s \<Rightarrow> stmt_sql s = q)"

text \<open>
  A property of the world that the bookkeeping of the store does not touch, and that does
  not depend on the state of statement \<open>h\<close> beyond its text.
\<close>

definition stable_at :: "nat \<Rightarrow> (world \<Rightarrow> bool) \<Rightarrow> bool" where
  "stable_at h A =
     ((\<forall>w c rc. A (logged c rc w) = A w) \<and>
      (\<forall>w c rc msg. A (failed c rc msg w) = A w) \<and>
      (\<forall>w s s'. A w \<longrightarrow> get_stmt w h = Some s \<longrightarrow> stmt_sql s' = stmt_sql s \<longrightarrow>
         A (put_stmt h (Some s') w)))"

text \<open>Table Test holds \<open>k\<close> rows (asked for only when \<open>g\<close> is set).\<close>

definition counted :: "bool \<Rightarrow> nat \<Rightarrow> world \<Rightarrow> bool" where
  "counted g k w = (g \<longrightarrow> (\<exists>rows. tbl w = Some rows \<and> length rows = k))"

text \<open>
  The cursor of the SELECT statement \<open>h\<close>: a bound on the number of rows it will still
  deliver, and the state in which it is on a row with fewer than \<open>k\<close> rows to come.
\<close>

definition pending_rows :: "nat \<Rightarrow> world \<Rightarrow> nat" where
  "pending_rows h w =
     (case get_stmt w h of
        None \<Rightarrow> 0
      | Some s \<Rightarrow>
          (case cursor s of
             None \<Rightarrow> Suc (case tbl w of None \<Rightarrow> 0 | Some rows \<Rightarrow> length rows)
           | Some p \<Rightarrow> length p))"

definition on_row :: "nat \<Rightarrow> nat \<Rightarrow> world \<Rightarrow> bool" where
  "on_row h k w =
     (\<exists>s r p. get_stmt w h = Some s \<and> current s = Some r \<and> cursor s = Some p \<and> length p < k)"

section \<open>Example worlds\<close>

text \<open>
  A machine on which nothing has happened yet: no database file, no connection, and a store
  that never fails.
\<close>

definition fresh_world :: world where
  "fresh_world =
     \<lparr>RAND_MAX = 32767, CLOCKS_PER_SEC = 1000,
      rand_seq = (\<lambda>k. (int k * 7919) mod 32768), rand_pos = 0,
      clock_seq = (\<lambda>k. int k * 10), clock_pos = 0,
      disk = None, conn = False, tbl = None, in_txn = False, stmts = [],
      last_error = ''not an error'', fault = (\<lambda>_. None), ncalls = 0, trace = []\<rparr>"






section \<open>Decimal text and keys\<close>

lemma digit_char_inj: "a < 10 \<Longrightarrow> b < 10 \<Longrightarrow> digit_char a = digit_char b \<Longrightarrow> a = b"
proof -
  assume a: "a < 10" and b: "b < 10" and e: "digit_char a = digit_char b"
  from e have "(of_char (char_of (48 + a)) :: nat) = of_char (char_of (48 + b))"
    by (simp add: digit_char_def)
  then have "(48 + a) mod 256 = (48 + b) mod 256"
    by (simp only: of_char_of)
  with a b show "a = b" by simp
qed

lemma dec_nonempty: "dec n \<noteq> []"
  by (subst dec.simps) simp

lemma length_dec_small: "n < 10 \<Longrightarrow> length (dec n) = 1"
  by (subst dec.simps) simp

lemma length_dec_big: "\<not> n < 10 \<Longrightarrow> 2 \<le> length (dec n)"
proof -
  assume "\<not> n < 10"
  then have "dec n = dec (n div 10) @ [digit_char (n mod 10)]"
    by (subst dec.simps) simp
  moreover have "1 \<le> length (dec (n div 10))"
    using dec_nonempty [of "n div 10"] by (cases "dec (n div 10)") auto
  ultimately show ?thesis by simp
qed

lemma dec_inj: "dec m = dec n \<Longrightarrow> m = n"
proof (induction m arbitrary: n rule: dec.induct)
  case (1 m)
  show ?case
  proof (cases "m < 10")
    case True
    then have lm: "length (dec m) = 1" by (rule length_dec_small)
    have "n < 10"
    proof (rule ccontr)
      assume "\<not> n < 10"
      then have "2 \<le> length (dec n)" by (rule length_dec_big)
      with lm "1.prems" show False by simp
    qed
    with True "1.prems" have "digit_char m = digit_char n"
      by (simp add: dec.simps [of m] dec.simps [of n])
    with True \<open>n < 10\<close> show ?thesis by (rule digit_char_inj)
  next
    case False
    then have lm: "2 \<le> length (dec m)" by (rule length_dec_big)
    have n: "\<not> n < 10"
    proof
      assume "n < 10"
      then have "length (dec n) = 1" by (rule length_dec_small)
      with lm "1.prems" show False by simp
    qed
    from False have em: "dec m = dec (m div 10) @ [digit_char (m mod 10)]"
      by (subst dec.simps) simp
    from n have en: "dec n = dec (n div 10) @ [digit_char (n mod 10)]"
      by (subst dec.simps) simp
    from "1.prems" em en have a: "dec (m div 10) = dec (n div 10)"
      and b: "digit_char (m mod 10) = digit_char (n mod 10)"
      by simp_all
    from "1.IH" [OF False a] have d: "m div 10 = n div 10" .
    have "m mod 10 = n mod 10"
      by (rule digit_char_inj [OF _ _ b]) simp_all
    with d show ?thesis
      by (metis div_mult_mod_eq)
  qed
qed

lemma length_dec_le: "0 < k \<Longrightarrow> n < 10 ^ k \<Longrightarrow> length (dec n) \<le> k"
proof (induction n arbitrary: k rule: dec.induct)
  case (1 n)
  show ?case
  proof (cases "n < 10")
    case True
    with "1.prems" show ?thesis by (simp add: length_dec_small)
  next
    case False
    from "1.prems" obtain j where k: "k = Suc j" by (cases k) auto
    have j: "0 < j"
    proof (rule ccontr)
      assume "\<not> 0 < j"
      with k "1.prems" False show False by simp
    qed
    from "1.prems" k have "n div 10 < 10 ^ j"
      by (simp add: less_mult_imp_div_less mult.commute)
    from "1.IH" [OF False j this] have "length (dec (n div 10)) \<le> j" .
    moreover from False have "dec n = dec (n div 10) @ [digit_char (n mod 10)]"
      by (subst dec.simps) simp
    ultimately show ?thesis using k by simp
  qed
qed

lemma show_int_nat: "show_int (int k) = dec k"
  by (simp add: show_int_def)

lemma insert_rows_key_eq: "insert_rows_key i = show_int i"
  by (simp add: insert_rows_key_def)

lemma insert_rows_xact_key_eq: "insert_rows_xact_key i = ''K-'' @ show_int i"
  by (simp add: insert_rows_xact_key_def)

lemma insert_rows_xact_prepared_key_eq: "insert_rows_xact_prepared_key i = ''K-'' @ show_int i"
  by (simp add: insert_rows_xact_prepared_key_def)

lemma show_int_inj_nonneg: "0 \<le> i \<Longrightarrow> 0 \<le> j \<Longrightarrow> show_int i = show_int j \<Longrightarrow> i = j"
proof -
  assume i: "0 \<le> i" and j: "0 \<le> j" and e: "show_int i = show_int j"
  then have "dec (nat i) = dec (nat j)" by (simp add: show_int_def)
  then have "nat i = nat j" by (rule dec_inj)
  with i j show "i = j" by simp
qed

lemma length_show_int: "0 \<le> i \<Longrightarrow> i < 10 ^ k \<Longrightarrow> 0 < k \<Longrightarrow> length (show_int i) \<le> k"
proof -
  assume i: "0 \<le> i" and b: "i < 10 ^ k" and k: "0 < k"
  from i b have "nat i < 10 ^ k"
    by (metis nat_less_iff of_nat_numeral of_nat_power)
  with k have "length (dec (nat i)) \<le> k" by (rule length_dec_le)
  with i show ?thesis by (simp add: show_int_def)
qed

section \<open>Rounding to binary64\<close>

lemma ilog2_bounds:
  assumes "0 < q"
  shows "2 powi (ilog2 q) \<le> q" and "q < 2 powi (ilog2 q + 1)"
proof -
  obtain a b where ab: "quotient_of q = (a, b)" by (cases "quotient_of q")
  then have b: "0 < b" by (rule quotient_of_denom_pos)
  from ab have q: "q = of_int a / of_int b" by (rule quotient_of_div)
  with assms b have a: "0 < a" by (simp add: zero_less_divide_iff)
  define k where "k = bitlen a - bitlen b"
  have la: "1 \<le> bitlen a" using a by (simp add: bitlen_alt_def)
  have lb: "1 \<le> bitlen b" using b by (simp add: bitlen_alt_def)
  have a1: "(2::rat) powi (bitlen a - 1) \<le> of_int a"
  proof -
    from bitlen_bounds [OF a] have "2 ^ nat (bitlen a - 1) \<le> a" by simp
    then have "(of_int (2 ^ nat (bitlen a - 1)) :: rat) \<le> of_int a" by (simp only: of_int_le_iff)
    with la show ?thesis by (simp add: power_int_def)
  qed
  have a2: "of_int a < (2::rat) powi (bitlen a)"
  proof -
    from bitlen_bounds [OF a] have "a < 2 ^ nat (bitlen a)" by simp
    then have "(of_int a :: rat) < of_int (2 ^ nat (bitlen a))" by (simp only: of_int_less_iff)
    with la show ?thesis by (simp add: power_int_def)
  qed
  have b1: "(2::rat) powi (bitlen b - 1) \<le> of_int b"
  proof -
    from bitlen_bounds [OF b] have "2 ^ nat (bitlen b - 1) \<le> b" by simp
    then have "(of_int (2 ^ nat (bitlen b - 1)) :: rat) \<le> of_int b" by (simp only: of_int_le_iff)
    with lb show ?thesis by (simp add: power_int_def)
  qed
  have b2: "of_int b < (2::rat) powi (bitlen b)"
  proof -
    from bitlen_bounds [OF b] have "b < 2 ^ nat (bitlen b)" by simp
    then have "(of_int b :: rat) < of_int (2 ^ nat (bitlen b))" by (simp only: of_int_less_iff)
    with lb show ?thesis by (simp add: power_int_def)
  qed
  have pb: "0 < (2::rat) powi (bitlen b)" and pb1: "0 < (2::rat) powi (bitlen b - 1)"
    by simp_all
  have bq: "0 < (of_int b :: rat)" using b by simp
  have low: "(2::rat) powi (k - 1) < q"
  proof -
    have "k - 1 = bitlen a - 1 - bitlen b"
      by (simp add: k_def)
    then have "(2::rat) powi (k - 1) = 2 powi (bitlen a - 1 - bitlen b)"
      by (simp only:)
    also have "\<dots> = 2 powi (bitlen a - 1) / 2 powi (bitlen b)"
      by (rule power_int_diff) simp
    also have "\<dots> \<le> of_int a / 2 powi (bitlen b)"
      using a1 pb by (simp add: divide_right_mono)
    also have "\<dots> < of_int a / of_int b"
      using b2 bq a by (simp add: divide_strict_left_mono)
    finally show ?thesis by (simp add: q)
  qed
  have high: "q < (2::rat) powi (k + 1)"
  proof -
    have "q = of_int a / of_int b" by (rule q)
    also have "\<dots> \<le> of_int a / 2 powi (bitlen b - 1)"
      by (rule frac_le) (use b1 pb1 a in simp_all)
    also have "\<dots> < 2 powi (bitlen a) / 2 powi (bitlen b - 1)"
      using a2 pb1 by (simp add: divide_strict_right_mono)
    also have "\<dots> = 2 powi (bitlen a - (bitlen b - 1))"
      by (rule power_int_diff [symmetric]) simp
    also have "bitlen a - (bitlen b - 1) = k + 1"
      by (simp add: k_def)
    finally show ?thesis .
  qed
  have e: "ilog2 q = (if 2 powi k \<le> q then k else k - 1)"
    by (simp add: ilog2_def ab k_def Let_def)
  show "2 powi (ilog2 q) \<le> q"
    using low by (simp add: e)
  show "q < 2 powi (ilog2 q + 1)"
    using high by (simp add: e not_le)
qed

lemma round_even_error: "\<bar>of_int (round_even x) - x\<bar> \<le> 1 / 2"
proof -
  have "of_int \<lfloor>x\<rfloor> \<le> x" and "x < of_int \<lfloor>x\<rfloor> + 1" by linarith+
  then show ?thesis
    by (auto simp add: round_even_def Let_def)
qed

lemma round_even_of_int: "round_even (of_int n) = n"
  by (simp add: round_even_def Let_def)

lemma fl_zero: "fl 0 = 0"
  by (simp add: fl_def)

lemma fl_minus: "fl (- q) = - fl q"
  by (simp add: fl_def Let_def)

lemma fl_pos_error:
  assumes "0 < q"
  shows "\<bar>fl q - q\<bar> \<le> q / 2 ^ 53"
proof -
  define e where "e = ilog2 q"
  define u :: rat where "u = 2 powi (e - 52)"
  define n where "n = round_even (q / u)"
  have u: "0 < u" by (simp add: u_def)
  from assms have f: "fl q = of_int n * u"
    by (simp add: fl_def Let_def n_def u_def e_def)
  have "\<bar>fl q - q\<bar> = \<bar>of_int n - q / u\<bar> * u"
  proof -
    have "fl q - q = (of_int n - q / u) * u"
      using u by (simp add: f field_simps)
    then show ?thesis using u by (simp add: abs_mult)
  qed
  also have "\<dots> \<le> (1 / 2) * u"
    using round_even_error [of "q / u"] u by (simp add: n_def mult_right_mono)
  also have "\<dots> = 2 powi e / 2 ^ 53"
  proof -
    have "e - 52 = e - 53 + 1" by simp
    then have "u = 2 powi (e - 53 + 1)" by (simp only: u_def)
    also have "\<dots> = 2 powi (e - 53) * 2" by (rule power_int_add_1) simp
    also have "2 powi (e - 53) = (2::rat) powi e / 2 powi 53" by (rule power_int_diff) simp
    finally show ?thesis by simp
  qed
  also have "\<dots> \<le> q / 2 ^ 53"
    using ilog2_bounds(1) [OF assms] by (simp add: e_def divide_right_mono)
  finally show ?thesis .
qed

lemma fl_pos: "0 < q \<Longrightarrow> 0 < fl q"
proof -
  assume q: "0 < q"
  from fl_pos_error [OF q] have "q - q / 2 ^ 53 \<le> fl q" by linarith
  moreover have "0 < q - q / 2 ^ 53" using q by simp
  ultimately show ?thesis by linarith
qed

lemma fl_nonneg: "0 \<le> q \<Longrightarrow> 0 \<le> fl q"
  using fl_pos [of q] by (cases "q = 0") (simp_all add: fl_zero less_le)

lemma fl_eq_0_iff: "fl q = 0 \<longleftrightarrow> q = 0"
proof
  assume z: "fl q = 0"
  show "q = 0"
  proof (rule ccontr)
    assume n: "q \<noteq> 0"
    show False
    proof (cases "0 < q")
      case True
      with fl_pos [of q] z show False by simp
    next
      case False
      with n have "0 < - q" by simp
      from fl_pos [OF this] z show False by (simp add: fl_minus)
    qed
  qed
next
  assume "q = 0"
  then show "fl q = 0" by (simp add: fl_zero)
qed

text \<open>Integers of magnitude below \<open>2 ^ 53\<close> are binary64 values.\<close>

lemma fl_of_nat_exact:
  assumes "0 < i" "i < 2 ^ 53"
  shows "fl (of_int i) = of_int i"
proof -
  define q :: rat where "q = of_int i"
  have q: "0 < q" using assms by (simp add: q_def)
  define e where "e = ilog2 q"
  have "(2::rat) powi e \<le> q" unfolding e_def by (rule ilog2_bounds(1) [OF q])
  also have "q < 2 ^ 53"
  proof -
    from assms(2) have "(of_int i :: rat) < of_int (2 ^ 53)" by (simp only: of_int_less_iff)
    then show ?thesis by (simp add: q_def)
  qed
  finally have "(2::rat) powi e < 2 ^ 53" .
  then have "(2::rat) powi e < 2 powi 53" by simp
  then have e: "e < 53" by (rule power_int_le_imp_less_exp [rotated]) simp_all
  define m where "m = nat (52 - e)"
  have u: "(2::rat) powi (e - 52) = 1 / 2 ^ m"
  proof -
    have "e - 52 = - int m" using e by (simp add: m_def)
    then have "(2::rat) powi (e - 52) = 2 powi (- int m)" by (simp only:)
    also have "\<dots> = inverse (2 powi (int m))" by (rule power_int_minus)
    also have "\<dots> = 1 / 2 ^ m" by (simp add: inverse_eq_divide)
    finally show ?thesis .
  qed
  have "q / (2 powi (e - 52)) = of_int (i * 2 ^ m)"
    by (simp add: u q_def)
  then have "round_even (q / (2 powi (e - 52))) = i * 2 ^ m"
    by (simp only: round_even_of_int)
  then have "fl q = of_int (i * 2 ^ m) * (1 / 2 ^ m)"
    using q by (simp add: fl_def Let_def e_def [symmetric] u)
  then show ?thesis by (simp add: q_def)
qed

lemma fl_of_int_exact: "\<bar>i\<bar> < 2 ^ 53 \<Longrightarrow> fl (of_int i) = of_int i"
proof -
  assume b: "\<bar>i\<bar> < 2 ^ 53"
  consider "i = 0" | "0 < i" | "i < 0" by linarith
  then show ?thesis
  proof cases
    case 1
    then show ?thesis by (simp add: fl_zero)
  next
    case 2
    with b show ?thesis by (simp add: fl_of_nat_exact)
  next
    case 3
    with b have "fl (of_int (- i)) = of_int (- i)" by (intro fl_of_nat_exact) simp_all
    then show ?thesis by (simp add: fl_minus)
  qed
qed

section \<open>The arithmetic of \<^verbatim>\<open>rand_double\<close> and of the report\<close>

lemma rand_double_of_eq:
  assumes "0 < rm" "rm < 2 ^ 53" "\<bar>r\<bar> < 2 ^ 53"
  shows "rand_double_of rm r = Finite (fl (of_int r / fl (of_int rm / 100)))"
proof -
  have m: "fl (of_int rm) = of_int rm" using assms by (simp add: fl_of_int_exact)
  have r: "fl (of_int r) = of_int r" using assms by (simp add: fl_of_int_exact)
  have "fl (of_int rm / 100) \<noteq> 0" using assms by (simp add: fl_eq_0_iff)
  then show ?thesis
    by (simp add: rand_double_of_def double_of_int_def RAND_DOUBLE_LIMIT_def m r)
qed

lemma rand_double_below_limit:
  assumes rm: "0 < rm" "rm \<le> 2147483647" and r: "0 \<le> r" "r < rm"
  shows "fl (of_int r / fl (of_int rm / 100)) < 100"
proof (cases "r = 0")
  case True
  then show ?thesis by (simp add: fl_zero)
next
  case False
  define M :: rat where "M = of_int rm"
  define R :: rat where "R = of_int r"
  define d where "d = fl (M / 100)"
  define v where "v = fl (R / d)"
  have M: "0 < M" "M \<le> 2147483647" using rm by (simp_all add: M_def)
  have R: "0 < R" using r False by (simp add: R_def)
  have RM: "R \<le> M - 1"
  proof -
    from r have "r \<le> rm - 1" by simp
    then have "(of_int r :: rat) \<le> of_int (rm - 1)" by (simp only: of_int_le_iff)
    then show ?thesis by (simp add: R_def M_def)
  qed
  have "\<bar>d - M / 100\<bar> \<le> (M / 100) / 2 ^ 53"
    unfolding d_def by (rule fl_pos_error) (use M in simp)
  then have d1: "M / 100 - (M / 100) / 2 ^ 53 \<le> d" by linarith
  have d: "0 < d" unfolding d_def by (rule fl_pos) (use M in simp)
  have q: "0 < R / d" using R d by simp
  have "\<bar>v - R / d\<bar> \<le> (R / d) / 2 ^ 53"
    unfolding v_def by (rule fl_pos_error [OF q])
  then have "v \<le> R / d + (R / d) / 2 ^ 53" by linarith
  then have "v * d \<le> (R / d + (R / d) / 2 ^ 53) * d"
    by (rule mult_right_mono) (use d in simp)
  also have "\<dots> = R + R / 2 ^ 53"
    using d by (simp add: field_simps)
  finally have vd: "v * d \<le> R + R / 2 ^ 53" .
  show ?thesis
  proof (rule ccontr)
    assume "\<not> fl (rat_of_int r / fl (rat_of_int rm / 100)) < 100"
    then have "100 \<le> v" by (simp add: v_def R_def d_def M_def)
    then have "100 * d \<le> v * d" by (rule mult_right_mono) (use d in simp)
    with vd d1 RM M show False by simp
  qed
qed

lemma rand_double_of_nonneg:
  assumes "0 < rm" "0 \<le> r"
  shows "0 \<le> fl (of_int r / fl (of_int rm / 100))"
proof -
  have "0 < fl (of_int rm / 100)" by (rule fl_pos) (use assms in simp)
  then show ?thesis using assms by (intro fl_nonneg) simp
qed

lemma elapsed_seconds_eq:
  "0 < cps \<Longrightarrow> elapsed_seconds cps start end = Finite (fl (fl (of_int (end - start)) / fl (of_int cps)))"
  by (simp add: elapsed_seconds_def double_of_int_def fl_eq_0_iff)

lemma elapsed_seconds_zero: "0 < cps \<Longrightarrow> elapsed_seconds cps t t = Finite 0"
  by (simp add: elapsed_seconds_eq fl_zero)

lemma rand_double_limit_helper:
  "rand_double_of 32767 32767 = Finite 100" "rand_double_of 2147483647 2147483647 = Finite 100"
  by code_simp+

section \<open>Rules for programs\<close>

lemma tripleI:
  assumes "\<And>w. P w \<Longrightarrow> \<exists>r w'. p w = Some (r, w') \<and>
             (case r of Ret x \<Rightarrow> Q x w' | Exit c \<Rightarrow> E c w' | Undefined_behaviour \<Rightarrow> False)"
  shows "triple P p Q E"
  using assms by (simp add: triple_def)

lemma tripleD:
  assumes "triple P p Q E" and "P w"
  obtains r w' where "p w = Some (r, w')"
    and "case r of Ret x \<Rightarrow> Q x w' | Exit c \<Rightarrow> E c w' | Undefined_behaviour \<Rightarrow> False"
  using assms unfolding triple_def by blast


lemma triple_Exit:
  assumes "triple P p Q E" and "P w" and "p w = Some (Exit c, w')"
  shows "E c w'"
  using assms unfolding triple_def by fastforce

lemma triple_no_UB:
  assumes "triple P p Q E" and "P w"
  shows "p w \<noteq> Some (Undefined_behaviour, w')"
  using assms unfolding triple_def by fastforce

lemma triple_returns:
  assumes "triple P p Q (\<lambda>c w. False)" and "P w"
  shows "\<exists>x w'. p w = Some (Ret x, w') \<and> Q x w'"
proof -
  from assms obtain r w' where r: "p w = Some (r, w')"
    and c: "case r of Ret x \<Rightarrow> Q x w' | Exit c \<Rightarrow> False | Undefined_behaviour \<Rightarrow> False"
    by (rule tripleD)
  then show ?thesis by (cases r) auto
qed

lemma triple_weaken:
  assumes "triple P' p Q' E'"
    and "\<And>w. P w \<Longrightarrow> P' w" and "\<And>x w. Q' x w \<Longrightarrow> Q x w" and "\<And>c w. E' c w \<Longrightarrow> E c w"
  shows "triple P p Q E"
proof (rule tripleI)
  fix w assume "P w"
  then have "P' w" by (rule assms(2))
  with assms(1) obtain r w' where r: "p w = Some (r, w')"
    and c: "case r of Ret x \<Rightarrow> Q' x w' | Exit c \<Rightarrow> E' c w' | Undefined_behaviour \<Rightarrow> False"
    by (rule tripleD)
  from c have "case r of Ret x \<Rightarrow> Q x w' | Exit c \<Rightarrow> E c w' | Undefined_behaviour \<Rightarrow> False"
    by (cases r) (auto intro: assms(3,4))
  with r show "\<exists>r w'. p w = Some (r, w') \<and>
      (case r of Ret x \<Rightarrow> Q x w' | Exit c \<Rightarrow> E c w' | Undefined_behaviour \<Rightarrow> False)"
    by blast
qed

lemma triple_pre:
  assumes "triple P' p Q E" and "\<And>w. P w \<Longrightarrow> P' w"
  shows "triple P p Q E"
  using assms(1) by (rule triple_weaken) (auto intro: assms(2))

lemma triple_post:
  assumes "triple P p Q' E" and "\<And>x w. Q' x w \<Longrightarrow> Q x w"
  shows "triple P p Q E"
  using assms(1) by (rule triple_weaken) (auto intro: assms(2))

lemma triple_ret: "triple (Q x) (ret x) Q E"
  by (rule tripleI) (simp add: ret_def)

lemma triple_skip: "triple P (ret x) (\<lambda>_. P) E"
  by (rule tripleI) (simp add: ret_def)

lemma triple_exit: "triple (E c) (exit c) Q E"
  by (rule tripleI) (simp add: exit_def)

lemma triple_gets: "triple (\<lambda>w. Q (f w) w) (gets f) Q E"
  by (rule tripleI) (simp add: gets_def)

lemma triple_bnd:
  assumes m: "triple P m R E" and f: "\<And>x. triple (R x) (f x) Q E"
  shows "triple P (bnd m f) Q E"
proof (rule tripleI)
  fix w assume "P w"
  with m obtain r w1 where r: "m w = Some (r, w1)"
    and c: "case r of Ret x \<Rightarrow> R x w1 | Exit c \<Rightarrow> E c w1 | Undefined_behaviour \<Rightarrow> False"
    by (rule tripleD)
  show "\<exists>r w'. bnd m f w = Some (r, w') \<and>
      (case r of Ret x \<Rightarrow> Q x w' | Exit c \<Rightarrow> E c w' | Undefined_behaviour \<Rightarrow> False)"
  proof (cases r)
    case (Ret x)
    with c have "R x w1" by simp
    with f [of x] obtain r2 w2 where r2: "f x w1 = Some (r2, w2)"
      and c2: "case r2 of Ret y \<Rightarrow> Q y w2 | Exit c \<Rightarrow> E c w2 | Undefined_behaviour \<Rightarrow> False"
      by (rule tripleD)
    from r Ret r2 have "bnd m f w = Some (r2, w2)" by (simp add: bnd_def)
    with c2 show ?thesis by blast
  next
    case (Exit c')
    with r have "bnd m f w = Some (Exit c', w1)" by (simp add: bnd_def)
    with c Exit show ?thesis by simp
  next
    case Undefined_behaviour
    with c show ?thesis by simp
  qed
qed

lemma triple_andthen:
  assumes "triple P m (\<lambda>_. R) E" and "triple R p Q E"
  shows "triple P (andthen m p) Q E"
  unfolding andthen_def using assms by (rule triple_bnd)

lemma triple_ignore:
  assumes "triple P m (\<lambda>_. Q ()) E"
  shows "triple P (ignore m) Q E"
  unfolding ignore_def using assms by (rule triple_bnd) (rule triple_ret)

lemma triple_if_then:
  assumes "b \<Longrightarrow> triple P p Q E" and "\<not> b \<Longrightarrow> triple P (ret ()) Q E"
  shows "triple P (if_then b p) Q E"
  using assms by (simp add: if_then_def)

lemma triple_for:
  assumes body: "\<And>i. i0 \<le> i \<Longrightarrow> i < n \<Longrightarrow> triple (I i) (body i) (\<lambda>_. I (i + 1)) E"
    and le: "i0 \<le> n"
  shows "triple (I i0) (for_loop i0 n body) (\<lambda>_. I n) E"
  using body le
proof (induction i0 n body rule: for_loop.induct)
  case (1 i n body)
  show ?case
  proof (cases "i < n")
    case True
    have step: "triple (I i) (body i) (\<lambda>_. I (i + 1)) E"
      using True by (intro "1.prems"(1)) simp_all
    have rest: "triple (I (i + 1)) (for_loop (i + 1) n body) (\<lambda>_. I n) E"
      using True by (intro "1.IH" "1.prems"(1)) simp_all
    have "triple (I i) (andthen (body i) (for_loop (i + 1) n body)) (\<lambda>_. I n) E"
      using step rest by (rule triple_andthen)
    with True show ?thesis by (subst for_loop.simps) simp
  next
    case False
    with "1.prems"(2) have "i = n" by simp
    with False show ?thesis
      by (subst for_loop.simps) (simp add: triple_skip)
  qed
qed

lemma triple_while:
  assumes c: "\<And>k. triple (\<lambda>w. I w \<and> m w = k) cond (\<lambda>b w. if b then B k w else Q () w) E"
    and b: "\<And>k. triple (B k) body (\<lambda>_ w. I w \<and> m w < (k::nat)) E"
  shows "triple I (while_loop cond body) Q E"
proof (rule tripleI)
  fix w
  have "I w \<Longrightarrow> m w = k \<Longrightarrow> \<exists>r w'. while_loop cond body w = Some (r, w') \<and>
      (case r of Ret x \<Rightarrow> Q x w' | Exit c \<Rightarrow> E c w' | Undefined_behaviour \<Rightarrow> False)" for k
  proof (induction k arbitrary: w rule: less_induct)
    case (less k)
    then have "I w \<and> m w = k" by simp
    with c [of k] obtain r w1 where r: "cond w = Some (r, w1)"
      and cr: "case r of Ret b \<Rightarrow> (if b then B k w1 else Q () w1) | Exit c \<Rightarrow> E c w1
                 | Undefined_behaviour \<Rightarrow> False"
      by (rule tripleD)
    show ?case
    proof (cases r)
      case (Ret bv)
      show ?thesis
      proof (cases bv)
        case True
        with cr Ret have "B k w1" by simp
        with b [of k] obtain r2 w2 where r2: "body w1 = Some (r2, w2)"
          and c2: "case r2 of Ret u \<Rightarrow> I w2 \<and> m w2 < k | Exit c \<Rightarrow> E c w2
                     | Undefined_behaviour \<Rightarrow> False"
          by (rule tripleD)
        show ?thesis
        proof (cases r2)
          case (Ret u)
          with c2 have i2: "I w2" and m2: "m w2 < k" by simp_all
          from less.IH [OF m2 i2 refl] obtain r3 w3
            where r3: "while_loop cond body w2 = Some (r3, w3)"
              and c3: "case r3 of Ret x \<Rightarrow> Q x w3 | Exit c \<Rightarrow> E c w3 | Undefined_behaviour \<Rightarrow> False"
            by blast
          have "while_loop cond body w = Some (r3, w3)"
            by (subst while_loop.simps) (simp add: r \<open>r = Ret bv\<close> True r2 Ret r3)
          with c3 show ?thesis by blast
        next
          case (Exit c')
          have "while_loop cond body w = Some (Exit c', w2)"
            by (subst while_loop.simps) (simp add: r \<open>r = Ret bv\<close> True r2 Exit)
          with c2 Exit show ?thesis by simp
        next
          case Undefined_behaviour
          with c2 show ?thesis by simp
        qed
      next
        case False
        have "while_loop cond body w = Some (Ret (), w1)"
          by (subst while_loop.simps) (simp add: r Ret False)
        with cr Ret False show ?thesis by simp
      qed
    next
      case (Exit c')
      have "while_loop cond body w = Some (Exit c', w1)"
        by (subst while_loop.simps) (simp add: r Exit)
      with cr Exit show ?thesis by simp
    next
      case Undefined_behaviour
      with cr show ?thesis by simp
    qed
  qed
  then show "I w \<Longrightarrow> \<exists>r w'. while_loop cond body w = Some (r, w') \<and>
      (case r of Ret x \<Rightarrow> Q x w' | Exit c \<Rightarrow> E c w' | Undefined_behaviour \<Rightarrow> False)"
    by simp
qed

section \<open>The building blocks of the store's answers\<close>

lemma logged_fields [simp]:
  "RAND_MAX (logged c rc w) = RAND_MAX w"
  "CLOCKS_PER_SEC (logged c rc w) = CLOCKS_PER_SEC w"
  "rand_seq (logged c rc w) = rand_seq w"
  "rand_pos (logged c rc w) = rand_pos w"
  "clock_seq (logged c rc w) = clock_seq w"
  "clock_pos (logged c rc w) = clock_pos w"
  "disk (logged c rc w) = disk w"
  "conn (logged c rc w) = conn w"
  "tbl (logged c rc w) = tbl w"
  "in_txn (logged c rc w) = in_txn w"
  "stmts (logged c rc w) = stmts w"
  "last_error (logged c rc w) = last_error w"
  "fault (logged c rc w) = fault w"
  "ncalls (logged c rc w) = Suc (ncalls w)"
  "trace (logged c rc w) = trace w @ [Store c rc]"
  by (simp_all add: logged_def)

lemma failed_fields [simp]:
  "RAND_MAX (failed c rc msg w) = RAND_MAX w"
  "CLOCKS_PER_SEC (failed c rc msg w) = CLOCKS_PER_SEC w"
  "rand_seq (failed c rc msg w) = rand_seq w"
  "rand_pos (failed c rc msg w) = rand_pos w"
  "clock_seq (failed c rc msg w) = clock_seq w"
  "clock_pos (failed c rc msg w) = clock_pos w"
  "disk (failed c rc msg w) = disk w"
  "conn (failed c rc msg w) = conn w"
  "tbl (failed c rc msg w) = tbl w"
  "in_txn (failed c rc msg w) = in_txn w"
  "stmts (failed c rc msg w) = stmts w"
  "last_error (failed c rc msg w) = msg"
  "fault (failed c rc msg w) = fault w"
  "ncalls (failed c rc msg w) = Suc (ncalls w)"
  "trace (failed c rc msg w) = trace w @ [Store c rc]"
  by (simp_all add: failed_def logged_def)

lemma put_stmt_fields [simp]:
  "RAND_MAX (put_stmt h so w) = RAND_MAX w"
  "CLOCKS_PER_SEC (put_stmt h so w) = CLOCKS_PER_SEC w"
  "rand_seq (put_stmt h so w) = rand_seq w"
  "rand_pos (put_stmt h so w) = rand_pos w"
  "clock_seq (put_stmt h so w) = clock_seq w"
  "clock_pos (put_stmt h so w) = clock_pos w"
  "disk (put_stmt h so w) = disk w"
  "conn (put_stmt h so w) = conn w"
  "tbl (put_stmt h so w) = tbl w"
  "in_txn (put_stmt h so w) = in_txn w"
  "stmts (put_stmt h so w) = (stmts w)[h := so]"
  "last_error (put_stmt h so w) = last_error w"
  "fault (put_stmt h so w) = fault w"
  "ncalls (put_stmt h so w) = ncalls w"
  "trace (put_stmt h so w) = trace w"
  by (simp_all add: put_stmt_def)

lemma autocommit_fields [simp]:
  "RAND_MAX (autocommit w) = RAND_MAX w"
  "CLOCKS_PER_SEC (autocommit w) = CLOCKS_PER_SEC w"
  "rand_seq (autocommit w) = rand_seq w"
  "rand_pos (autocommit w) = rand_pos w"
  "clock_seq (autocommit w) = clock_seq w"
  "clock_pos (autocommit w) = clock_pos w"
  "disk (autocommit w) = (if in_txn w then disk w else tbl w)"
  "conn (autocommit w) = conn w"
  "tbl (autocommit w) = tbl w"
  "in_txn (autocommit w) = in_txn w"
  "stmts (autocommit w) = stmts w"
  "last_error (autocommit w) = last_error w"
  "fault (autocommit w) = fault w"
  "ncalls (autocommit w) = ncalls w"
  "trace (autocommit w) = trace w"
  by (simp_all add: autocommit_def)

lemma get_stmt_eq: "stmts w' = stmts w \<Longrightarrow> get_stmt w' h = get_stmt w h"
  by (simp add: get_stmt_def)

lemma get_stmt_simps [simp]:
  "get_stmt (logged c rc w) h = get_stmt w h"
  "get_stmt (failed c rc msg w) h = get_stmt w h"
  "get_stmt (autocommit w) h = get_stmt w h"
  "get_stmt (w\<lparr>tbl := t\<rparr>) h = get_stmt w h"
  "get_stmt (w\<lparr>disk := d\<rparr>) h = get_stmt w h"
  "get_stmt (w\<lparr>in_txn := b\<rparr>) h = get_stmt w h"
  "get_stmt (w\<lparr>conn := b\<rparr>) h = get_stmt w h"
  "get_stmt (w\<lparr>trace := tr\<rparr>) h = get_stmt w h"
  "get_stmt (w\<lparr>rand_pos := k\<rparr>) h = get_stmt w h"
  "get_stmt (w\<lparr>clock_pos := k\<rparr>) h = get_stmt w h"
  by (simp_all add: get_stmt_def)

lemma get_stmt_put_stmt [simp]:
  "get_stmt (put_stmt h so w) h' =
     (if h' = h \<and> h < length (stmts w) then so else get_stmt w h')"
  by (simp add: get_stmt_def)

lemma get_stmt_Some_length: "get_stmt w h = Some s \<Longrightarrow> h < length (stmts w)"
  by (simp add: get_stmt_def split: if_splits)

lemma get_stmt_append [simp]:
  "get_stmt (w\<lparr>stmts := stmts w @ [so]\<rparr>) h =
     (if h = length (stmts w) then so else get_stmt w h)"
  by (auto simp add: get_stmt_def nth_append)

lemma is_stmt_simps [simp]:
  "is_stmt (logged c rc w) h q = is_stmt w h q"
  "is_stmt (failed c rc msg w) h q = is_stmt w h q"
  "is_stmt (autocommit w) h q = is_stmt w h q"
  "is_stmt (w\<lparr>tbl := t\<rparr>) h q = is_stmt w h q"
  "is_stmt (w\<lparr>disk := d\<rparr>) h q = is_stmt w h q"
  "is_stmt (w\<lparr>in_txn := b\<rparr>) h q = is_stmt w h q"
  "is_stmt (w\<lparr>trace := tr\<rparr>) h q = is_stmt w h q"
  "is_stmt (w\<lparr>rand_pos := k\<rparr>) h q = is_stmt w h q"
  "is_stmt (w\<lparr>clock_pos := k\<rparr>) h q = is_stmt w h q"
  by (simp_all add: is_stmt_def)

lemma is_stmt_put_stmt:
  "get_stmt w h = Some s \<Longrightarrow>
   is_stmt (put_stmt h (Some s') w) h' q = (if h' = h then stmt_sql s' = q else is_stmt w h' q)"
  by (simp add: is_stmt_def get_stmt_Some_length)

lemma injected_simps [simp]:
  "injected (put_stmt h so w) = injected w"
  "injected (autocommit w) = injected w"
  "injected (w\<lparr>tbl := t\<rparr>) = injected w"
  "injected (w\<lparr>in_txn := b\<rparr>) = injected w"
  "injected (w\<lparr>trace := tr\<rparr>) = injected w"
  "injected (w\<lparr>rand_pos := k\<rparr>) = injected w"
  by (simp_all add: injected_def)

lemma injected_status:
  "injected w = Some (rc, msg) \<Longrightarrow> rc \<noteq> SQLITE_OK \<and> rc \<noteq> SQLITE_ROW \<and> rc \<noteq> SQLITE_DONE"
  by (auto simp add: injected_def split: option.splits if_splits)

lemma no_faults_injected: "no_faults w \<Longrightarrow> injected w = None"
  by (simp add: no_faults_def injected_def)

lemma no_faults_simps [simp]:
  "no_faults (logged c rc w) = no_faults w"
  "no_faults (failed c rc msg w) = no_faults w"
  "no_faults (put_stmt h so w) = no_faults w"
  "no_faults (autocommit w) = no_faults w"
  "no_faults (w\<lparr>tbl := t\<rparr>) = no_faults w"
  "no_faults (w\<lparr>disk := d\<rparr>) = no_faults w"
  "no_faults (w\<lparr>in_txn := b\<rparr>) = no_faults w"
  "no_faults (w\<lparr>conn := b\<rparr>) = no_faults w"
  "no_faults (w\<lparr>stmts := ss\<rparr>) = no_faults w"
  "no_faults (w\<lparr>trace := tr\<rparr>) = no_faults w"
  "no_faults (w\<lparr>rand_pos := k\<rparr>) = no_faults w"
  "no_faults (w\<lparr>clock_pos := k\<rparr>) = no_faults w"
  by (simp_all add: no_faults_def)

section \<open>One rule for each library call\<close>

lemma triple_gets':
  assumes "\<And>w. P w \<Longrightarrow> Q (f w) w"
  shows "triple P (gets f) Q E"
  by (rule tripleI) (simp add: gets_def assms)

lemma triple_ret':
  assumes "\<And>w. P w \<Longrightarrow> Q x w"
  shows "triple P (ret x) Q E"
  by (rule tripleI) (simp add: ret_def assms)

lemma triple_exit':
  assumes "\<And>w. P w \<Longrightarrow> E c w"
  shows "triple P (exit c) Q E"
  by (rule tripleI) (simp add: exit_def assms)

lemma triple_printf:
  assumes "\<And>w. P w \<Longrightarrow> Q () (w\<lparr>trace := trace w @ [Printf fmt args]\<rparr>)"
  shows "triple P (printf fmt args) Q E"
  by (rule tripleI) (simp add: printf_def assms)

lemma triple_getchar:
  assumes "\<And>w. P w \<Longrightarrow> Q () (w\<lparr>trace := trace w @ [Getchar]\<rparr>)"
  shows "triple P getchar Q E"
  by (rule tripleI) (simp add: getchar_def assms)

lemma triple_rand:
  assumes "\<And>w. P w \<Longrightarrow> Q (rand_seq w (rand_pos w)) (w\<lparr>rand_pos := Suc (rand_pos w)\<rparr>)"
  shows "triple P rand Q E"
  by (rule tripleI) (simp add: rand_def assms)

lemma triple_clock:
  assumes "\<And>w. P w \<Longrightarrow> Q (clock_seq w (clock_pos w)) (w\<lparr>clock_pos := Suc (clock_pos w)\<rparr>)"
  shows "triple P clock Q E"
  by (rule tripleI) (simp add: clock_def assms)

lemma triple_remove_file:
  assumes "\<And>w. P w \<Longrightarrow> Q () (w\<lparr>disk := None\<rparr>)"
  shows "triple P (remove_file path) Q E"
  by (rule tripleI) (simp add: remove_file_def assms)

lemma triple_sprintf_key:
  assumes "fits_key s" and "\<And>w. P w \<Longrightarrow> Q s w"
  shows "triple P (sprintf_key s) Q E"
  by (rule tripleI) (simp add: sprintf_key_def ret_def assms)

lemma triple_strcpy_key:
  assumes "\<And>w. P w \<Longrightarrow> Q s w" and "fits_key s"
  shows "triple P (strcpy_key (Some s)) Q E"
  by (rule tripleI) (simp add: strcpy_key_def ret_def assms)

lemma triple_rand_double:
  assumes "\<And>w. P w \<Longrightarrow>
    Q (rand_double_of (RAND_MAX w) (rand_seq w (rand_pos w))) (w\<lparr>rand_pos := Suc (rand_pos w)\<rparr>)"
  shows "triple P rand_double Q E"
  by (rule tripleI) (simp add: rand_double_def rand_def gets_def ret_def bnd_def assms)

lemma triple_errmsg:
  assumes "\<And>w. P w \<Longrightarrow> Q (last_error w) (logged Errmsg SQLITE_OK w)"
  shows "triple P sqlite3_errmsg Q E"
  by (rule tripleI) (simp add: sqlite3_errmsg_def assms)

lemma triple_open:
  assumes "\<And>w rc msg. P w \<Longrightarrow> injected w = Some (rc, msg) \<Longrightarrow> Q rc (failed (Open path) rc msg w)"
    and "\<And>w. P w \<Longrightarrow> injected w = None \<Longrightarrow>
           Q SQLITE_OK (logged (Open path) SQLITE_OK
             (w\<lparr>conn := True, tbl := disk w, in_txn := False, stmts := []\<rparr>))"
  shows "triple P (sqlite3_open path) Q E"
  by (rule tripleI) (auto simp add: sqlite3_open_def assms split: option.splits)

lemma triple_close:
  assumes "\<And>w rc msg. P w \<Longrightarrow>
             injected w = Some (rc, msg) \<or>
             injected w = None \<and> rc \<noteq> SQLITE_OK \<and> (\<not> conn w \<or> (\<exists>s \<in> set (stmts w). s \<noteq> None)) \<Longrightarrow>
             Q rc (failed Close rc msg w)"
    and "\<And>w. P w \<Longrightarrow> injected w = None \<Longrightarrow> conn w \<Longrightarrow> \<forall>s \<in> set (stmts w). s = None \<Longrightarrow>
           Q SQLITE_OK (logged Close SQLITE_OK (w\<lparr>conn := False, tbl := disk w, in_txn := False\<rparr>))"
  shows "triple P sqlite3_close Q E"
  by (rule tripleI) (auto simp add: sqlite3_close_def assms split: option.splits)

lemma triple_exec:
  assumes "\<And>w rc msg. P w \<Longrightarrow>
             injected w = Some (rc, msg) \<or>
             injected w = None \<and> \<not> conn w \<and> rc = SQLITE_MISUSE \<or>
             injected w = None \<and> conn w \<and> exec_sql q w = Inl (rc, msg) \<Longrightarrow>
             Q rc (failed (Exec q) rc msg w)"
    and "\<And>w w1. P w \<Longrightarrow> injected w = None \<Longrightarrow> conn w \<Longrightarrow> exec_sql q w = Inr w1 \<Longrightarrow>
           Q SQLITE_OK (logged (Exec q) SQLITE_OK w1)"
  shows "triple P (sqlite3_exec q) Q E"
  by (rule tripleI) (auto simp add: sqlite3_exec_def assms split: option.splits sum.splits)

lemma triple_prepare:
  assumes "\<And>w rc msg. P w \<Longrightarrow>
             injected w = Some (rc, msg) \<or>
             injected w = None \<and> rc \<noteq> SQLITE_OK \<and> (\<not> conn w \<or> \<not> preparable q \<or> tbl w = None) \<Longrightarrow>
             Q (rc, 0) (failed (Prepare q) rc msg w)"
    and "\<And>w. P w \<Longrightarrow> injected w = None \<Longrightarrow> conn w \<Longrightarrow> preparable q \<Longrightarrow> tbl w \<noteq> None \<Longrightarrow>
           Q (SQLITE_OK, length (stmts w)) (logged (Prepare q) SQLITE_OK
             (w\<lparr>stmts := stmts w @ [Some (new_stmt q)]\<rparr>))"
  shows "triple P (sqlite3_prepare_v3 q) Q E"
  by (rule tripleI) (auto simp add: sqlite3_prepare_v3_def assms split: option.splits)

lemma triple_bind_value:
  assumes "\<And>w rc msg. P w \<Longrightarrow> rc \<noteq> SQLITE_OK \<Longrightarrow>
             get_stmt w h = None \<or>
             (\<exists>s. get_stmt w h = Some s \<and> \<not> (1 \<le> idx \<and> idx \<le> nparams (stmt_sql s))) \<Longrightarrow>
             Q rc (failed c rc msg w)"
    and "\<And>w s. P w \<Longrightarrow> get_stmt w h = Some s \<Longrightarrow> 1 \<le> idx \<Longrightarrow> idx \<le> nparams (stmt_sql s) \<Longrightarrow>
           Q SQLITE_OK (logged c SQLITE_OK (put_stmt h (Some (s\<lparr>params := (params s)(idx \<mapsto> v)\<rparr>)) w))"
  shows "triple P (bind_value c h idx v) Q E"
  by (rule tripleI) (auto simp add: bind_value_def assms split: option.splits)

lemma triple_clear_bindings:
  assumes "\<And>w. P w \<Longrightarrow> get_stmt w h = None \<Longrightarrow>
             Q SQLITE_MISUSE (failed (ClearBindings h) SQLITE_MISUSE misuse w)"
    and "\<And>w s. P w \<Longrightarrow> get_stmt w h = Some s \<Longrightarrow>
           Q SQLITE_OK (logged (ClearBindings h) SQLITE_OK (put_stmt h (Some (s\<lparr>params := (\<lambda>_. None)\<rparr>)) w))"
  shows "triple P (sqlite3_clear_bindings h) Q E"
  by (rule tripleI) (auto simp add: sqlite3_clear_bindings_def assms split: option.splits)

lemma triple_reset:
  assumes "\<And>w. P w \<Longrightarrow> get_stmt w h = None \<Longrightarrow>
             Q SQLITE_MISUSE (failed (Reset h) SQLITE_MISUSE misuse w)"
    and "\<And>w s. P w \<Longrightarrow> get_stmt w h = Some s \<Longrightarrow>
           Q (last_rc s) (logged (Reset h) (last_rc s)
             (put_stmt h (Some (s\<lparr>cursor := None, current := None, last_rc := SQLITE_OK\<rparr>)) w))"
  shows "triple P (sqlite3_reset h) Q E"
  by (rule tripleI) (auto simp add: sqlite3_reset_def assms split: option.splits)

lemma triple_finalize:
  assumes "\<And>w. P w \<Longrightarrow> get_stmt w h = None \<Longrightarrow>
             Q SQLITE_MISUSE (failed (Finalize h) SQLITE_MISUSE misuse w)"
    and "\<And>w s. P w \<Longrightarrow> get_stmt w h = Some s \<Longrightarrow>
           Q (last_rc s) (logged (Finalize h) (last_rc s) (put_stmt h None w))"
  shows "triple P (sqlite3_finalize h) Q E"
  by (rule tripleI) (auto simp add: sqlite3_finalize_def assms split: option.splits)

text \<open>The step of a statement whose text is known.\<close>

lemma triple_step_insert:
  assumes k: "\<And>w. P w \<Longrightarrow> is_stmt w h INSERT_PARAMS"
    and f: "\<And>w s rc msg. P w \<Longrightarrow> get_stmt w h = Some s \<Longrightarrow>
             injected w = Some (rc, msg) \<or> injected w = None \<and> step_insert s w = Inl (rc, msg) \<Longrightarrow>
             Q rc (failed (Step h (Some INSERT_PARAMS)) rc msg (put_stmt h (Some (s\<lparr>last_rc := rc\<rparr>)) w))"
    and d: "\<And>w s w1. P w \<Longrightarrow> get_stmt w h = Some s \<Longrightarrow> injected w = None \<Longrightarrow>
             step_insert s w = Inr w1 \<Longrightarrow>
             Q SQLITE_DONE (logged (Step h (Some INSERT_PARAMS)) SQLITE_DONE w1)"
  shows "triple P (sqlite3_step h) Q E"
proof (rule tripleI)
  fix w assume p: "P w"
  from k [OF p] obtain s where s: "get_stmt w h = Some s" "stmt_sql s = INSERT_PARAMS"
    by (auto simp add: is_stmt_def split: option.splits)
  show "\<exists>r w'. sqlite3_step h w = Some (r, w') \<and>
      (case r of Ret x \<Rightarrow> Q x w' | Exit c \<Rightarrow> E c w' | Undefined_behaviour \<Rightarrow> False)"
    using f [OF p s(1)] d [OF p s(1)] s
    by (auto simp add: sqlite3_step_def step_mutation_def split: option.splits sum.splits)
qed

lemma triple_step_update_key:
  assumes k: "\<And>w. P w \<Longrightarrow> is_stmt w h UPDATE_WHERE_key"
    and f: "\<And>w s rc msg. P w \<Longrightarrow> get_stmt w h = Some s \<Longrightarrow>
             injected w = Some (rc, msg) \<or> injected w = None \<and> step_update_key s w = Inl (rc, msg) \<Longrightarrow>
             Q rc (failed (Step h (Some UPDATE_WHERE_key)) rc msg (put_stmt h (Some (s\<lparr>last_rc := rc\<rparr>)) w))"
    and d: "\<And>w s w1. P w \<Longrightarrow> get_stmt w h = Some s \<Longrightarrow> injected w = None \<Longrightarrow>
             step_update_key s w = Inr w1 \<Longrightarrow>
             Q SQLITE_DONE (logged (Step h (Some UPDATE_WHERE_key)) SQLITE_DONE w1)"
  shows "triple P (sqlite3_step h) Q E"
proof (rule tripleI)
  fix w assume p: "P w"
  from k [OF p] obtain s where s: "get_stmt w h = Some s" "stmt_sql s = UPDATE_WHERE_key"
    by (auto simp add: is_stmt_def split: option.splits)
  show "\<exists>r w'. sqlite3_step h w = Some (r, w') \<and>
      (case r of Ret x \<Rightarrow> Q x w' | Exit c \<Rightarrow> E c w' | Undefined_behaviour \<Rightarrow> False)"
    using f [OF p s(1)] d [OF p s(1)] s
    by (auto simp add: sqlite3_step_def step_mutation_def split: option.splits sum.splits)
qed

lemma triple_step_update_rowid:
  assumes k: "\<And>w. P w \<Longrightarrow> is_stmt w h UPDATE_WHERE_rowid"
    and f: "\<And>w s rc msg. P w \<Longrightarrow> get_stmt w h = Some s \<Longrightarrow>
             injected w = Some (rc, msg) \<or> injected w = None \<and> step_update_rowid s w = Inl (rc, msg) \<Longrightarrow>
             Q rc (failed (Step h (Some UPDATE_WHERE_rowid)) rc msg (put_stmt h (Some (s\<lparr>last_rc := rc\<rparr>)) w))"
    and d: "\<And>w s w1. P w \<Longrightarrow> get_stmt w h = Some s \<Longrightarrow> injected w = None \<Longrightarrow>
             step_update_rowid s w = Inr w1 \<Longrightarrow>
             Q SQLITE_DONE (logged (Step h (Some UPDATE_WHERE_rowid)) SQLITE_DONE w1)"
  shows "triple P (sqlite3_step h) Q E"
proof (rule tripleI)
  fix w assume p: "P w"
  from k [OF p] obtain s where s: "get_stmt w h = Some s" "stmt_sql s = UPDATE_WHERE_rowid"
    by (auto simp add: is_stmt_def split: option.splits)
  show "\<exists>r w'. sqlite3_step h w = Some (r, w') \<and>
      (case r of Ret x \<Rightarrow> Q x w' | Exit c \<Rightarrow> E c w' | Undefined_behaviour \<Rightarrow> False)"
    using f [OF p s(1)] d [OF p s(1)] s
    by (auto simp add: sqlite3_step_def step_mutation_def split: option.splits sum.splits)
qed

text \<open>The order in which a SELECT of this program delivers the rows.\<close>

lemma triple_step_select:
  assumes k: "\<And>w. P w \<Longrightarrow> is_stmt w h q"
    and q: "q = SELECT_ORDER_BY_key \<and> order = sort_key key \<or>
            q = SELECT_ORDER_BY_rowid \<and> order = sort_key rowid"
    and f: "\<And>w s rc msg. P w \<Longrightarrow> get_stmt w h = Some s \<Longrightarrow>
             injected w = Some (rc, msg) \<or> injected w = None \<and> tbl w = None \<and> rc = SQLITE_ERROR \<Longrightarrow>
             Q rc (failed (Step h (Some q)) rc msg (put_stmt h (Some (s\<lparr>last_rc := rc\<rparr>)) w))"
    and d: "\<And>w s rows. P w \<Longrightarrow> get_stmt w h = Some s \<Longrightarrow> injected w = None \<Longrightarrow>
             tbl w = Some rows \<Longrightarrow>
             (case cursor s of None \<Rightarrow> order rows | Some pending \<Rightarrow> pending) = [] \<Longrightarrow>
             Q SQLITE_DONE (logged (Step h (Some q)) SQLITE_DONE
               (put_stmt h (Some (s\<lparr>cursor := None, current := None\<rparr>)) w))"
    and r: "\<And>w s rows x rest. P w \<Longrightarrow> get_stmt w h = Some s \<Longrightarrow> injected w = None \<Longrightarrow>
             tbl w = Some rows \<Longrightarrow>
             (case cursor s of None \<Rightarrow> order rows | Some pending \<Rightarrow> pending) = x # rest \<Longrightarrow>
             Q SQLITE_ROW (logged (Step h (Some q)) SQLITE_ROW
               (put_stmt h (Some (s\<lparr>cursor := Some rest, current := Some x\<rparr>)) w))"
  shows "triple P (sqlite3_step h) Q E"
proof (rule tripleI)
  fix w assume p: "P w"
  from k [OF p] obtain s where s: "get_stmt w h = Some s" "stmt_sql s = q"
    by (auto simp add: is_stmt_def split: option.splits)
  show "\<exists>r w'. sqlite3_step h w = Some (r, w') \<and>
      (case r of Ret x \<Rightarrow> Q x w' | Exit c \<Rightarrow> E c w' | Undefined_behaviour \<Rightarrow> False)"
    using f [OF p s(1)] d [OF p s(1)] r [OF p s(1)] s q
    by (auto simp add: sqlite3_step_def step_select_def split: option.splits list.splits)
qed

section \<open>Safety: clean traces and keys that fit\<close>

lemma clean_simps [simp]:
  "clean []"
  "clean (es @ [e]) = (clean es \<and> \<not> fatal e)"
  "clean (e # es) = (\<not> fatal e \<and> clean es)"
  by (auto simp add: clean_def)

lemma clean_append: "clean (es @ fs) = (clean es \<and> clean fs)"
  by (auto simp add: clean_def)

lemma clean_die_events [simp]: "clean (die_events msg)"
  by (simp add: die_events_def)

lemma keys_fit_simps [simp]:
  "keys_fit (logged c rc w) = keys_fit w"
  "keys_fit (failed c rc msg w) = keys_fit w"
  "keys_fit (w\<lparr>trace := tr\<rparr>) = keys_fit w"
  "keys_fit (w\<lparr>rand_pos := k\<rparr>) = keys_fit w"
  "keys_fit (w\<lparr>clock_pos := k\<rparr>) = keys_fit w"
  "keys_fit (w\<lparr>in_txn := b\<rparr>) = keys_fit w"
  "keys_fit (w\<lparr>conn := b\<rparr>) = keys_fit w"
  by (simp_all add: keys_fit_def)

lemma keys_fit_put_stmt: "keys_fit w \<Longrightarrow> stmt_fits so \<Longrightarrow> keys_fit (put_stmt h so w)"
  using set_update_subset_insert [of "stmts w" h so]
  by (auto simp add: keys_fit_def)

lemma keys_fit_get_stmt: "keys_fit w \<Longrightarrow> get_stmt w h = Some s \<Longrightarrow> stmt_fits (Some s)"
  by (metis get_stmt_def keys_fit_def nth_mem option.distinct(1))

lemma keys_fit_autocommit: "keys_fit w \<Longrightarrow> keys_fit (autocommit w)"
  by (simp add: keys_fit_def autocommit_def)

lemma keys_fit_tbl: "keys_fit w \<Longrightarrow> tbl w = Some rows \<Longrightarrow> rows_fit rows"
  by (simp add: keys_fit_def)

lemma keys_fit_set_tbl: "keys_fit w \<Longrightarrow> rows_fit rows \<Longrightarrow> keys_fit (w\<lparr>tbl := Some rows\<rparr>)"
  by (simp add: keys_fit_def)

lemma keys_fit_new_stmt: "keys_fit w \<Longrightarrow> keys_fit (w\<lparr>stmts := stmts w @ [Some (new_stmt q)]\<rparr>)"
  by (auto simp add: keys_fit_def stmt_fits_def new_stmt_def)

lemma rows_fit_simps [simp]:
  "rows_fit []"
  "rows_fit (rows @ [r]) = (rows_fit rows \<and> fits_key (key r))"
  "rows_fit (r # rows) = (fits_key (key r) \<and> rows_fit rows)"
  by (auto simp add: rows_fit_def)

lemma rows_fit_sort_key: "rows_fit (sort_key f rows) = rows_fit rows"
  by (simp add: rows_fit_def)

lemma rows_fit_set_nums:
  "rows_fit rows \<Longrightarrow> rows_fit (map (\<lambda>r. if wh r then set_nums a b c d r else r) rows)"
  by (auto simp add: rows_fit_def set_nums_def)

lemma safe_simps [simp]:
  "safe (logged c rc w) = (safe w \<and> \<not> fatal (Store c rc))"
  "safe (failed c rc msg w) = (safe w \<and> \<not> fatal (Store c rc))"
  "safe (w\<lparr>rand_pos := k\<rparr>) = safe w"
  "safe (w\<lparr>clock_pos := k\<rparr>) = safe w"
  by (auto simp add: safe_def)

lemma safe_put_stmt: "safe w \<Longrightarrow> stmt_fits so \<Longrightarrow> safe (put_stmt h so w)"
  by (simp add: safe_def keys_fit_put_stmt)

lemma safe_printf [simp]: "safe (w\<lparr>trace := trace w @ [Printf fmt args]\<rparr>) = safe w"
  by (simp add: safe_def)

lemma safe_getchar [simp]: "safe (w\<lparr>trace := trace w @ [Getchar]\<rparr>) = safe w"
  by (simp add: safe_def)

subsection \<open>Dying\<close>

lemma triple_die:
  "triple (\<lambda>w. \<exists>es e. trace w = es @ [e] \<and> clean es \<and> fatal e) die_db_error Q died"
  unfolding die_db_error_def
  apply (rule triple_bnd [where R = "\<lambda>msg w. msg = last_error w \<and>
      (\<exists>es e. trace w = es @ [e] @ [Store Errmsg SQLITE_OK] \<and> clean es \<and> fatal e)"])
   apply (rule triple_errmsg)
   apply auto[1]
  apply (rule triple_andthen [where R = "\<lambda>w. \<exists>es e. trace w = es @ [e] @ [Store Errmsg SQLITE_OK,
      Printf ''SQLite Error - %s\<newline>'' [Str (last_error w)]] \<and> clean es \<and> fatal e"])
   apply (rule triple_printf)
   apply auto[1]
  apply (rule triple_andthen [where R = "\<lambda>w. \<exists>es e. trace w = es @ [e] @ [Store Errmsg SQLITE_OK,
      Printf ''SQLite Error - %s\<newline>'' [Str (last_error w)],
      Printf ''PRESS ANY KEY TO EXIT.\<newline>'' []] \<and> clean es \<and> fatal e"])
   apply (rule triple_printf)
   apply auto[1]
  apply (rule triple_andthen [where R = "\<lambda>w. \<exists>es e. trace w = es @ [e] @ die_events (last_error w)
      \<and> clean es \<and> fatal e"])
   apply (rule triple_getchar)
   apply (auto simp add: die_events_def)[1]
  apply (rule triple_exit')
  apply (auto simp add: died_def)
  done

text \<open>\<^verbatim>\<open>if (rc != ok) die_db_error();\<close> after a call that has just been logged.\<close>

lemma triple_check:
  assumes "\<And>w. P w \<Longrightarrow> if rc \<noteq> ok then \<exists>es e. trace w = es @ [e] \<and> clean es \<and> fatal e else Q () w"
  shows "triple P (if_then (rc \<noteq> ok) die_db_error) Q died"
proof (rule triple_if_then)
  assume "rc \<noteq> ok"
  then show "triple P die_db_error Q died"
    using assms by (intro triple_pre [OF triple_die]) auto
next
  assume "\<not> rc \<noteq> ok"
  then show "triple P (ret ()) Q died"
    using assms by (intro triple_ret') auto
qed

subsection \<open>Checked calls\<close>

lemma triple_assume:
  assumes "C \<Longrightarrow> triple P p Q E"
  shows "triple (\<lambda>w. C \<and> P w) p Q E"
  using assms by (auto simp add: triple_def)

lemma store_insert_Inr:
  assumes "store_insert k a b c d w = Inr w1"
  obtains rows where "tbl w = Some rows" and "k \<notin> set (map key rows)"
    and "w1 = autocommit (w\<lparr>tbl := Some (rows @
           [\<lparr>rowid = next_rowid rows, key = k, num1 = a, num2 = b, num3 = c, num4 = d\<rparr>])\<rparr>)"
  using assms by (auto simp add: store_insert_def split: option.splits if_splits)

lemma store_insert_Inl: "store_insert k a b c d w = Inl (rc, msg) \<Longrightarrow> rc \<noteq> SQLITE_OK \<and> rc \<noteq> SQLITE_DONE"
  by (auto simp add: store_insert_def split: option.splits if_splits)

lemma store_update_Inr:
  assumes "store_update wh a b c d w = Inr w1"
  obtains rows where "tbl w = Some rows"
    and "w1 = autocommit (w\<lparr>tbl := Some (map (\<lambda>r. if wh r then set_nums a b c d r else r) rows)\<rparr>)"
  using assms by (auto simp add: store_update_def split: option.splits)

lemma store_update_Inl: "store_update wh a b c d w = Inl (rc, msg) \<Longrightarrow> rc \<noteq> SQLITE_OK \<and> rc \<noteq> SQLITE_DONE"
  by (auto simp add: store_update_def split: option.splits)

lemma exec_sql_Inl: "exec_sql q w = Inl (rc, msg) \<Longrightarrow> rc \<noteq> SQLITE_OK"
  by (cases q) (auto simp add: exec_sql_def dest: store_insert_Inl split: if_splits option.splits)

lemma step_insert_Inl: "step_insert s w = Inl (rc, msg) \<Longrightarrow> rc \<noteq> SQLITE_DONE"
  by (auto simp add: step_insert_def dest: store_insert_Inl split: option.splits)

lemma step_update_key_Inl: "step_update_key s w = Inl (rc, msg) \<Longrightarrow> rc \<noteq> SQLITE_DONE"
  by (auto simp add: step_update_key_def dest: store_update_Inl split: option.splits)

lemma step_update_rowid_Inl: "step_update_rowid s w = Inl (rc, msg) \<Longrightarrow> rc \<noteq> SQLITE_DONE"
  by (auto simp add: step_update_rowid_def dest: store_update_Inl split: option.splits)

lemma step_insert_Inr:
  assumes "step_insert s w = Inr w1"
  obtains k a b c d where "params s 1 = Some (Text k)" and "params s 2 = Some (Real a)"
    and "params s 3 = Some (Real b)" and "params s 4 = Some (Real c)" and "params s 5 = Some (Real d)"
    and "store_insert k a b c d w = Inr w1"
proof -
  from assms obtain k a b c d where p: "as_text (params s 1) = Some k" "as_real (params s 2) = Some a"
    "as_real (params s 3) = Some b" "as_real (params s 4) = Some c" "as_real (params s 5) = Some d"
    and i: "store_insert k a b c d w = Inr w1"
    by (auto simp add: step_insert_def split: option.splits)
  from p(1) have "params s 1 = Some (Text k)" by (rule as_text.elims) auto
  moreover from p(2) have "params s 2 = Some (Real a)" by (rule as_real.elims) auto
  moreover from p(3) have "params s 3 = Some (Real b)" by (rule as_real.elims) auto
  moreover from p(4) have "params s 4 = Some (Real c)" by (rule as_real.elims) auto
  moreover from p(5) have "params s 5 = Some (Real d)" by (rule as_real.elims) auto
  ultimately show ?thesis using i by (rule that)
qed

lemma step_update_key_Inr:
  assumes "step_update_key s w = Inr w1"
  obtains a b c d k where "params s 1 = Some (Real a)" and "params s 2 = Some (Real b)"
    and "params s 3 = Some (Real c)" and "params s 4 = Some (Real d)" and "params s 5 = Some (Text k)"
    and "store_update (\<lambda>r. key r = k) a b c d w = Inr w1"
proof -
  from assms obtain a b c d k where p: "as_real (params s 1) = Some a" "as_real (params s 2) = Some b"
    "as_real (params s 3) = Some c" "as_real (params s 4) = Some d" "as_text (params s 5) = Some k"
    and i: "store_update (\<lambda>r. key r = k) a b c d w = Inr w1"
    by (auto simp add: step_update_key_def split: option.splits)
  from p(1) have "params s 1 = Some (Real a)" by (rule as_real.elims) auto
  moreover from p(2) have "params s 2 = Some (Real b)" by (rule as_real.elims) auto
  moreover from p(3) have "params s 3 = Some (Real c)" by (rule as_real.elims) auto
  moreover from p(4) have "params s 4 = Some (Real d)" by (rule as_real.elims) auto
  moreover from p(5) have "params s 5 = Some (Text k)" by (rule as_text.elims) auto
  ultimately show ?thesis using i by (rule that)
qed

lemma step_update_rowid_Inr:
  assumes "step_update_rowid s w = Inr w1"
  obtains a b c d k where "params s 1 = Some (Real a)" and "params s 2 = Some (Real b)"
    and "params s 3 = Some (Real c)" and "params s 4 = Some (Real d)" and "params s 5 = Some (Integer k)"
    and "store_update (\<lambda>r. rowid r = k) a b c d w = Inr w1"
proof -
  from assms obtain a b c d k where p: "as_real (params s 1) = Some a" "as_real (params s 2) = Some b"
    "as_real (params s 3) = Some c" "as_real (params s 4) = Some d" "as_integer (params s 5) = Some k"
    and i: "store_update (\<lambda>r. rowid r = k) a b c d w = Inr w1"
    by (auto simp add: step_update_rowid_def split: option.splits)
  from p(1) have "params s 1 = Some (Real a)" by (rule as_real.elims) auto
  moreover from p(2) have "params s 2 = Some (Real b)" by (rule as_real.elims) auto
  moreover from p(3) have "params s 3 = Some (Real c)" by (rule as_real.elims) auto
  moreover from p(4) have "params s 4 = Some (Real d)" by (rule as_real.elims) auto
  moreover from p(5) have "params s 5 = Some (Integer k)" by (rule as_integer.elims) auto
  ultimately show ?thesis using i by (rule that)
qed

text \<open>A call followed by \<^verbatim>\<open>if (rc != SQLITE_OK) die_db_error();\<close>, from a clean trace.\<close>

lemma triple_exec_checked:
  assumes c: "\<And>w. P w \<Longrightarrow> clean (trace w)"
    and ok: "\<And>w w1. P w \<Longrightarrow> injected w = None \<Longrightarrow> conn w \<Longrightarrow> exec_sql q w = Inr w1 \<Longrightarrow>
               Q () (logged (Exec q) SQLITE_OK w1)"
  shows "triple P (bnd (sqlite3_exec q) (\<lambda>rc. if_then (rc \<noteq> SQLITE_OK) die_db_error)) Q died"
proof (rule triple_bnd)
  show "triple P (sqlite3_exec q)
      (\<lambda>rc w. if rc \<noteq> SQLITE_OK then \<exists>es e. trace w = es @ [e] \<and> clean es \<and> fatal e else Q () w) died"
  proof (rule triple_exec)
    fix w rc msg
    assume p: "P w" and f: "injected w = Some (rc, msg) \<or>
        injected w = None \<and> \<not> conn w \<and> rc = SQLITE_MISUSE \<or>
        injected w = None \<and> conn w \<and> exec_sql q w = Inl (rc, msg)"
    then have "rc \<noteq> SQLITE_OK"
      by (auto dest: injected_status exec_sql_Inl)
    with c [OF p] show "if rc \<noteq> SQLITE_OK
        then \<exists>es e. trace (failed (Exec q) rc msg w) = es @ [e] \<and> clean es \<and> fatal e
        else Q () (failed (Exec q) rc msg w)"
      by simp
  next
    fix w w1
    assume "P w" "injected w = None" "conn w" "exec_sql q w = Inr w1"
    then show "if SQLITE_OK \<noteq> SQLITE_OK
        then \<exists>es e. trace (logged (Exec q) SQLITE_OK w1) = es @ [e] \<and> clean es \<and> fatal e
        else Q () (logged (Exec q) SQLITE_OK w1)"
      by (simp add: ok)
  qed
next
  fix rc
  show "triple (\<lambda>w. if rc \<noteq> SQLITE_OK then \<exists>es e. trace w = es @ [e] \<and> clean es \<and> fatal e else Q () w)
      (if_then (rc \<noteq> SQLITE_OK) die_db_error) Q died"
    by (rule triple_check) simp
qed

lemma triple_prepare_checked:
  assumes c: "\<And>w. P w \<Longrightarrow> clean (trace w)"
    and ok: "\<And>w. P w \<Longrightarrow> injected w = None \<Longrightarrow> conn w \<Longrightarrow> preparable q \<Longrightarrow> tbl w \<noteq> None \<Longrightarrow>
               R (length (stmts w)) (logged (Prepare q) SQLITE_OK
                 (w\<lparr>stmts := stmts w @ [Some (new_stmt q)]\<rparr>))"
    and k: "\<And>h. triple (R h) (k h) Q died"
  shows "triple P (bnd (sqlite3_prepare_v3 q) (\<lambda>(rc, h).
           andthen (if_then (rc \<noteq> SQLITE_OK) die_db_error) (k h))) Q died"
proof (rule triple_bnd)
  show "triple P (sqlite3_prepare_v3 q)
      (\<lambda>x w. if fst x \<noteq> SQLITE_OK then \<exists>es e. trace w = es @ [e] \<and> clean es \<and> fatal e else R (snd x) w) died"
  proof (rule triple_prepare)
    fix w rc msg
    assume p: "P w" and f: "injected w = Some (rc, msg) \<or>
        injected w = None \<and> rc \<noteq> SQLITE_OK \<and> (\<not> conn w \<or> \<not> preparable q \<or> tbl w = None)"
    then have "rc \<noteq> SQLITE_OK"
      by (auto dest: injected_status)
    with c [OF p] show "if fst (rc, 0::nat) \<noteq> SQLITE_OK
        then \<exists>es e. trace (failed (Prepare q) rc msg w) = es @ [e] \<and> clean es \<and> fatal e
        else R (snd (rc, 0::nat)) (failed (Prepare q) rc msg w)"
      by simp
  next
    fix w
    assume "P w" "injected w = None" "conn w" "preparable q" "tbl w \<noteq> None"
    then show "if fst (SQLITE_OK, length (stmts w)) \<noteq> SQLITE_OK
        then \<exists>es e. trace (logged (Prepare q) SQLITE_OK
               (w\<lparr>stmts := stmts w @ [Some (new_stmt q)]\<rparr>)) = es @ [e] \<and> clean es \<and> fatal e
        else R (snd (SQLITE_OK, length (stmts w))) (logged (Prepare q) SQLITE_OK
               (w\<lparr>stmts := stmts w @ [Some (new_stmt q)]\<rparr>))"
      by (simp add: ok)
  qed
next
  fix x :: "int \<times> nat"
  obtain rc h where x: "x = (rc, h)" by (cases x)
  have "triple (\<lambda>w. if rc \<noteq> SQLITE_OK then \<exists>es e. trace w = es @ [e] \<and> clean es \<and> fatal e else R h w)
      (andthen (if_then (rc \<noteq> SQLITE_OK) die_db_error) (k h)) Q died"
  proof (rule triple_andthen)
    show "triple (\<lambda>w. if rc \<noteq> SQLITE_OK then \<exists>es e. trace w = es @ [e] \<and> clean es \<and> fatal e else R h w)
        (if_then (rc \<noteq> SQLITE_OK) die_db_error) (\<lambda>_. R h) died"
      by (rule triple_check) simp
    show "triple (R h) (k h) Q died" by (rule k)
  qed
  then show "triple (\<lambda>w. if fst x \<noteq> SQLITE_OK then \<exists>es e. trace w = es @ [e] \<and> clean es \<and> fatal e else R (snd x) w)
      (case x of (rc, h) \<Rightarrow> andthen (if_then (rc \<noteq> SQLITE_OK) die_db_error) (k h)) Q died"
    by (simp only: x prod.case fst_conv snd_conv)
qed

lemma triple_step_insert_checked:
  assumes c: "\<And>w. P w \<Longrightarrow> clean (trace w)"
    and k: "\<And>w. P w \<Longrightarrow> is_stmt w h INSERT_PARAMS"
    and ok: "\<And>w s w1. P w \<Longrightarrow> get_stmt w h = Some s \<Longrightarrow> injected w = None \<Longrightarrow>
               step_insert s w = Inr w1 \<Longrightarrow> Q () (logged (Step h (Some INSERT_PARAMS)) SQLITE_DONE w1)"
  shows "triple P (bnd (sqlite3_step h) (\<lambda>rc. if_then (rc \<noteq> SQLITE_DONE) die_db_error)) Q died"
proof (rule triple_bnd)
  show "triple P (sqlite3_step h)
      (\<lambda>rc w. if rc \<noteq> SQLITE_DONE then \<exists>es e. trace w = es @ [e] \<and> clean es \<and> fatal e else Q () w) died"
  proof (rule triple_step_insert [OF k])
    fix w s rc msg
    assume p: "P w" and "get_stmt w h = Some s"
      and "injected w = Some (rc, msg) \<or> injected w = None \<and> step_insert s w = Inl (rc, msg)"
    then have "rc \<noteq> SQLITE_DONE"
      by (auto dest: injected_status step_insert_Inl)
    with c [OF p] show "if rc \<noteq> SQLITE_DONE
        then \<exists>es e. trace (failed (Step h (Some INSERT_PARAMS)) rc msg
               (put_stmt h (Some (s\<lparr>last_rc := rc\<rparr>)) w)) = es @ [e] \<and> clean es \<and> fatal e
        else Q () (failed (Step h (Some INSERT_PARAMS)) rc msg (put_stmt h (Some (s\<lparr>last_rc := rc\<rparr>)) w))"
      by simp
  next
    fix w s w1
    assume "P w" "get_stmt w h = Some s" "injected w = None" "step_insert s w = Inr w1"
    then show "if SQLITE_DONE \<noteq> SQLITE_DONE
        then \<exists>es e. trace (logged (Step h (Some INSERT_PARAMS)) SQLITE_DONE w1) = es @ [e] \<and> clean es \<and> fatal e
        else Q () (logged (Step h (Some INSERT_PARAMS)) SQLITE_DONE w1)"
      by (simp add: ok)
  qed (assumption)
next
  fix rc
  show "triple (\<lambda>w. if rc \<noteq> SQLITE_DONE then \<exists>es e. trace w = es @ [e] \<and> clean es \<and> fatal e else Q () w)
      (if_then (rc \<noteq> SQLITE_DONE) die_db_error) Q died"
    by (rule triple_check) simp
qed

lemma triple_step_update_key_checked:
  assumes c: "\<And>w. P w \<Longrightarrow> clean (trace w)"
    and k: "\<And>w. P w \<Longrightarrow> is_stmt w h UPDATE_WHERE_key"
    and ok: "\<And>w s w1. P w \<Longrightarrow> get_stmt w h = Some s \<Longrightarrow> injected w = None \<Longrightarrow>
               step_update_key s w = Inr w1 \<Longrightarrow> Q () (logged (Step h (Some UPDATE_WHERE_key)) SQLITE_DONE w1)"
  shows "triple P (bnd (sqlite3_step h) (\<lambda>rc. if_then (rc \<noteq> SQLITE_DONE) die_db_error)) Q died"
proof (rule triple_bnd)
  show "triple P (sqlite3_step h)
      (\<lambda>rc w. if rc \<noteq> SQLITE_DONE then \<exists>es e. trace w = es @ [e] \<and> clean es \<and> fatal e else Q () w) died"
  proof (rule triple_step_update_key [OF k])
    fix w s rc msg
    assume p: "P w" and "get_stmt w h = Some s"
      and "injected w = Some (rc, msg) \<or> injected w = None \<and> step_update_key s w = Inl (rc, msg)"
    then have "rc \<noteq> SQLITE_DONE"
      by (auto dest: injected_status step_update_key_Inl)
    with c [OF p] show "if rc \<noteq> SQLITE_DONE
        then \<exists>es e. trace (failed (Step h (Some UPDATE_WHERE_key)) rc msg
               (put_stmt h (Some (s\<lparr>last_rc := rc\<rparr>)) w)) = es @ [e] \<and> clean es \<and> fatal e
        else Q () (failed (Step h (Some UPDATE_WHERE_key)) rc msg (put_stmt h (Some (s\<lparr>last_rc := rc\<rparr>)) w))"
      by simp
  next
    fix w s w1
    assume "P w" "get_stmt w h = Some s" "injected w = None" "step_update_key s w = Inr w1"
    then show "if SQLITE_DONE \<noteq> SQLITE_DONE
        then \<exists>es e. trace (logged (Step h (Some UPDATE_WHERE_key)) SQLITE_DONE w1) = es @ [e] \<and> clean es \<and> fatal e
        else Q () (logged (Step h (Some UPDATE_WHERE_key)) SQLITE_DONE w1)"
      by (simp add: ok)
  qed (assumption)
next
  fix rc
  show "triple (\<lambda>w. if rc \<noteq> SQLITE_DONE then \<exists>es e. trace w = es @ [e] \<and> clean es \<and> fatal e else Q () w)
      (if_then (rc \<noteq> SQLITE_DONE) die_db_error) Q died"
    by (rule triple_check) simp
qed

lemma triple_step_update_rowid_checked:
  assumes c: "\<And>w. P w \<Longrightarrow> clean (trace w)"
    and k: "\<And>w. P w \<Longrightarrow> is_stmt w h UPDATE_WHERE_rowid"
    and ok: "\<And>w s w1. P w \<Longrightarrow> get_stmt w h = Some s \<Longrightarrow> injected w = None \<Longrightarrow>
               step_update_rowid s w = Inr w1 \<Longrightarrow> Q () (logged (Step h (Some UPDATE_WHERE_rowid)) SQLITE_DONE w1)"
  shows "triple P (bnd (sqlite3_step h) (\<lambda>rc. if_then (rc \<noteq> SQLITE_DONE) die_db_error)) Q died"
proof (rule triple_bnd)
  show "triple P (sqlite3_step h)
      (\<lambda>rc w. if rc \<noteq> SQLITE_DONE then \<exists>es e. trace w = es @ [e] \<and> clean es \<and> fatal e else Q () w) died"
  proof (rule triple_step_update_rowid [OF k])
    fix w s rc msg
    assume p: "P w" and "get_stmt w h = Some s"
      and "injected w = Some (rc, msg) \<or> injected w = None \<and> step_update_rowid s w = Inl (rc, msg)"
    then have "rc \<noteq> SQLITE_DONE"
      by (auto dest: injected_status step_update_rowid_Inl)
    with c [OF p] show "if rc \<noteq> SQLITE_DONE
        then \<exists>es e. trace (failed (Step h (Some UPDATE_WHERE_rowid)) rc msg
               (put_stmt h (Some (s\<lparr>last_rc := rc\<rparr>)) w)) = es @ [e] \<and> clean es \<and> fatal e
        else Q () (failed (Step h (Some UPDATE_WHERE_rowid)) rc msg (put_stmt h (Some (s\<lparr>last_rc := rc\<rparr>)) w))"
      by simp
  next
    fix w s w1
    assume "P w" "get_stmt w h = Some s" "injected w = None" "step_update_rowid s w = Inr w1"
    then show "if SQLITE_DONE \<noteq> SQLITE_DONE
        then \<exists>es e. trace (logged (Step h (Some UPDATE_WHERE_rowid)) SQLITE_DONE w1) = es @ [e] \<and> clean es \<and> fatal e
        else Q () (logged (Step h (Some UPDATE_WHERE_rowid)) SQLITE_DONE w1)"
      by (simp add: ok)
  qed (assumption)
next
  fix rc
  show "triple (\<lambda>w. if rc \<noteq> SQLITE_DONE then \<exists>es e. trace w = es @ [e] \<and> clean es \<and> fatal e else Q () w)
      (if_then (rc \<noteq> SQLITE_DONE) die_db_error) Q died"
    by (rule triple_check) simp
qed

subsection \<open>Calls whose status is discarded\<close>

lemma stable_atD:
  assumes "stable_at h A"
  shows "A (logged c rc w) = A w" and "A (failed c rc msg w) = A w"
    and "A w \<Longrightarrow> get_stmt w h = Some s \<Longrightarrow> stmt_sql s' = stmt_sql s \<Longrightarrow> A (put_stmt h (Some s') w)"
  using assms unfolding stable_at_def by blast+

lemma stmt_fits_params:
  assumes "stmt_fits (Some s)" and "\<And>k. v = Text k \<Longrightarrow> fits_key k"
  shows "stmt_fits (Some (s\<lparr>params := (params s)(idx \<mapsto> v)\<rparr>))"
  using assms by (auto simp add: stmt_fits_def)

lemma stmt_fits_clear: "stmt_fits (Some s) \<Longrightarrow> stmt_fits (Some (s\<lparr>params := (\<lambda>_. None)\<rparr>))"
  by (simp add: stmt_fits_def)

lemma stmt_fits_reset:
  "stmt_fits (Some s) \<Longrightarrow> stmt_fits (Some (s\<lparr>cursor := None, current := None, last_rc := rc\<rparr>))"
  by (simp add: stmt_fits_def)

lemma stmt_fits_last_rc: "stmt_fits (Some s) \<Longrightarrow> stmt_fits (Some (s\<lparr>last_rc := rc\<rparr>))"
  by (simp add: stmt_fits_def)

lemma safe_get_stmt: "safe w \<Longrightarrow> get_stmt w h = Some s \<Longrightarrow> stmt_fits (Some s)"
  unfolding safe_def by (blast intro: keys_fit_get_stmt)

lemma bind_value_safe:
  assumes st: "stable_at h A" and v: "\<And>k. v = Text k \<Longrightarrow> fits_key k"
    and c: "\<And>rc. \<not> fatal (Store c rc)"
  shows "triple (\<lambda>w. safe w \<and> A w) (ignore (bind_value c h idx v)) (\<lambda>_ w. safe w \<and> A w) E"
proof (rule triple_ignore, rule triple_bind_value)
  fix w rc msg
  assume "safe w \<and> A w"
  then show "safe (failed c rc msg w) \<and> A (failed c rc msg w)"
    by (simp add: stable_atD [OF st] c)
next
  fix w s
  assume a: "safe w \<and> A w" and s: "get_stmt w h = Some s"
  let ?s = "s\<lparr>params := (params s)(idx \<mapsto> v)\<rparr>"
  from a s have "stmt_fits (Some s)" by (blast intro: safe_get_stmt)
  then have "stmt_fits (Some ?s)" using v by (rule stmt_fits_params)
  with a have "safe (put_stmt h (Some ?s) w)" by (simp add: safe_put_stmt)
  moreover from a s have "A (put_stmt h (Some ?s) w)"
    by (intro stable_atD(3) [OF st]) simp_all
  ultimately show "safe (logged c SQLITE_OK (put_stmt h (Some ?s) w)) \<and>
      A (logged c SQLITE_OK (put_stmt h (Some ?s) w))"
    by (simp add: stable_atD [OF st] c)
qed

lemma bind_text_safe:
  assumes "stable_at h A" and "fits_key k"
  shows "triple (\<lambda>w. safe w \<and> A w) (ignore (sqlite3_bind_text h idx k)) (\<lambda>_ w. safe w \<and> A w) E"
  unfolding sqlite3_bind_text_def using assms by (intro bind_value_safe) simp_all

lemma bind_double_safe:
  assumes "stable_at h A"
  shows "triple (\<lambda>w. safe w \<and> A w) (ignore (sqlite3_bind_double h idx x)) (\<lambda>_ w. safe w \<and> A w) E"
  unfolding sqlite3_bind_double_def using assms by (intro bind_value_safe) simp_all

lemma bind_int64_safe:
  assumes "stable_at h A"
  shows "triple (\<lambda>w. safe w \<and> A w) (ignore (sqlite3_bind_int64 h idx i)) (\<lambda>_ w. safe w \<and> A w) E"
  unfolding sqlite3_bind_int64_def using assms by (intro bind_value_safe) simp_all

lemma clear_bindings_safe:
  assumes st: "stable_at h A"
  shows "triple (\<lambda>w. safe w \<and> A w) (ignore (sqlite3_clear_bindings h)) (\<lambda>_ w. safe w \<and> A w) E"
proof (rule triple_ignore, rule triple_clear_bindings)
  fix w
  assume "safe w \<and> A w"
  then show "safe (failed (ClearBindings h) SQLITE_MISUSE misuse w) \<and>
      A (failed (ClearBindings h) SQLITE_MISUSE misuse w)"
    by (simp add: stable_atD [OF st])
next
  fix w s
  assume a: "safe w \<and> A w" and s: "get_stmt w h = Some s"
  let ?s = "s\<lparr>params := (\<lambda>_. None)\<rparr>"
  from a s have "stmt_fits (Some s)" by (blast intro: safe_get_stmt)
  then have "stmt_fits (Some ?s)" by (rule stmt_fits_clear)
  with a have "safe (put_stmt h (Some ?s) w)" by (simp add: safe_put_stmt)
  moreover from a s have "A (put_stmt h (Some ?s) w)"
    by (intro stable_atD(3) [OF st]) simp_all
  ultimately show "safe (logged (ClearBindings h) SQLITE_OK (put_stmt h (Some ?s) w)) \<and>
      A (logged (ClearBindings h) SQLITE_OK (put_stmt h (Some ?s) w))"
    by (simp add: stable_atD [OF st])
qed

lemma reset_safe:
  assumes st: "stable_at h A"
  shows "triple (\<lambda>w. safe w \<and> A w) (ignore (sqlite3_reset h)) (\<lambda>_ w. safe w \<and> A w) E"
proof (rule triple_ignore, rule triple_reset)
  fix w
  assume "safe w \<and> A w"
  then show "safe (failed (Reset h) SQLITE_MISUSE misuse w) \<and> A (failed (Reset h) SQLITE_MISUSE misuse w)"
    by (simp add: stable_atD [OF st])
next
  fix w s
  assume a: "safe w \<and> A w" and s: "get_stmt w h = Some s"
  let ?s = "s\<lparr>cursor := None, current := None, last_rc := SQLITE_OK\<rparr>"
  from a s have "stmt_fits (Some s)" by (blast intro: safe_get_stmt)
  then have "stmt_fits (Some ?s)" by (rule stmt_fits_reset)
  with a have "safe (put_stmt h (Some ?s) w)" by (simp add: safe_put_stmt)
  moreover from a s have "A (put_stmt h (Some ?s) w)"
    by (intro stable_atD(3) [OF st]) simp_all
  ultimately show "safe (logged (Reset h) (last_rc s) (put_stmt h (Some ?s) w)) \<and>
      A (logged (Reset h) (last_rc s) (put_stmt h (Some ?s) w))"
    by (simp add: stable_atD [OF st])
qed

lemma finalize_safe:
  assumes l: "\<And>w c rc. A (logged c rc w) = A w" and f: "\<And>w c rc msg. A (failed c rc msg w) = A w"
    and p: "\<And>w. A w \<Longrightarrow> B (put_stmt h None w)" and ab: "\<And>w. A w \<Longrightarrow> B w"
    and lb: "\<And>w c rc. B (logged c rc w) = B w" and fb: "\<And>w c rc msg. B (failed c rc msg w) = B w"
  shows "triple (\<lambda>w. safe w \<and> A w) (ignore (sqlite3_finalize h)) (\<lambda>_ w. safe w \<and> B w) E"
proof (rule triple_ignore, rule triple_finalize)
  fix w
  assume "safe w \<and> A w"
  then show "safe (failed (Finalize h) SQLITE_MISUSE misuse w) \<and> B (failed (Finalize h) SQLITE_MISUSE misuse w)"
    by (simp add: fb ab)
next
  fix w s
  assume a: "safe w \<and> A w" and s: "get_stmt w h = Some s"
  have "stmt_fits None" by (simp add: stmt_fits_def)
  with a have "safe (put_stmt h None w)" by (simp add: safe_put_stmt)
  with a show "safe (logged (Finalize h) (last_rc s) (put_stmt h None w)) \<and>
      B (logged (Finalize h) (last_rc s) (put_stmt h None w))"
    by (simp add: lb p)
qed

subsection \<open>Opening, closing, creating the table\<close>

lemma open_database_safe:
  "triple (\<lambda>w. clean (trace w)) open_database (\<lambda>_ w. safe w \<and> tbl w = None \<and> stmts w = []) died"
  unfolding open_database_def
proof (rule triple_andthen [where R = "\<lambda>w. clean (trace w) \<and> disk w = None"])
  show "triple (\<lambda>w. clean (trace w)) (remove_file DB_FILE_PATH)
      (\<lambda>_ w. clean (trace w) \<and> disk w = None) died"
    by (rule triple_remove_file) simp
  show "triple (\<lambda>w. clean (trace w) \<and> disk w = None)
      (bnd (sqlite3_open DB_FILE_PATH) (\<lambda>rc. if_then (rc \<noteq> SQLITE_OK) die_db_error))
      (\<lambda>_ w. safe w \<and> tbl w = None \<and> stmts w = []) died"
  proof (rule triple_bnd)
    show "triple (\<lambda>w. clean (trace w) \<and> disk w = None) (sqlite3_open DB_FILE_PATH)
        (\<lambda>rc w. if rc \<noteq> SQLITE_OK then \<exists>es e. trace w = es @ [e] \<and> clean es \<and> fatal e
                 else safe w \<and> tbl w = None \<and> stmts w = []) died"
    proof (rule triple_open)
      fix w rc msg
      assume "clean (trace w) \<and> disk w = None" and "injected w = Some (rc, msg)"
      then show "if rc \<noteq> SQLITE_OK
          then \<exists>es e. trace (failed (Open DB_FILE_PATH) rc msg w) = es @ [e] \<and> clean es \<and> fatal e
          else safe (failed (Open DB_FILE_PATH) rc msg w) \<and> tbl (failed (Open DB_FILE_PATH) rc msg w) = None \<and>
               stmts (failed (Open DB_FILE_PATH) rc msg w) = []"
        by (auto dest: injected_status)
    next
      fix w
      let ?w = "logged (Open DB_FILE_PATH) SQLITE_OK
          (w\<lparr>conn := True, tbl := disk w, in_txn := False, stmts := []\<rparr>)"
      assume "clean (trace w) \<and> disk w = None"
      then show "if SQLITE_OK \<noteq> SQLITE_OK then \<exists>es e. trace ?w = es @ [e] \<and> clean es \<and> fatal e
          else safe ?w \<and> tbl ?w = None \<and> stmts ?w = []"
        by (simp add: safe_def keys_fit_def)
    qed
    show "triple (\<lambda>w. if rc \<noteq> SQLITE_OK then \<exists>es e. trace w = es @ [e] \<and> clean es \<and> fatal e
                 else safe w \<and> tbl w = None \<and> stmts w = [])
        (if_then (rc \<noteq> SQLITE_OK) die_db_error) (\<lambda>_ w. safe w \<and> tbl w = None \<and> stmts w = []) died" for rc
      by (rule triple_check) simp
  qed
qed

lemma close_database_safe:
  "triple safe close_database (\<lambda>_ w. clean (trace w)) died"
  unfolding close_database_def
proof (rule triple_bnd)
  show "triple safe sqlite3_close
      (\<lambda>rc w. if rc \<noteq> SQLITE_OK then \<exists>es e. trace w = es @ [e] \<and> clean es \<and> fatal e else clean (trace w)) died"
  proof (rule triple_close)
    fix w rc msg
    assume "safe w" and "injected w = Some (rc, msg) \<or>
        injected w = None \<and> rc \<noteq> SQLITE_OK \<and> (\<not> conn w \<or> (\<exists>s\<in>set (stmts w). s \<noteq> None))"
    then show "if rc \<noteq> SQLITE_OK then \<exists>es e. trace (failed Close rc msg w) = es @ [e] \<and> clean es \<and> fatal e
        else clean (trace (failed Close rc msg w))"
      by (auto simp add: safe_def dest: injected_status)
  next
    fix w
    assume "safe w"
    then show "if SQLITE_OK \<noteq> SQLITE_OK
        then \<exists>es e. trace (logged Close SQLITE_OK (w\<lparr>conn := False, tbl := disk w, in_txn := False\<rparr>)) = es @ [e] \<and> clean es \<and> fatal e
        else clean (trace (logged Close SQLITE_OK (w\<lparr>conn := False, tbl := disk w, in_txn := False\<rparr>)))"
      by (simp add: safe_def)
  qed
  show "triple (\<lambda>w. if rc \<noteq> SQLITE_OK then \<exists>es e. trace w = es @ [e] \<and> clean es \<and> fatal e else clean (trace w))
      (if_then (rc \<noteq> SQLITE_OK) die_db_error) (\<lambda>_ w. clean (trace w)) died" for rc
    by (rule triple_check) simp
qed

lemma exec_sql_create:
  "exec_sql CREATE_TABLE_IF_NOT_EXISTS w =
     Inr (autocommit (w\<lparr>tbl := Some (case tbl w of None \<Rightarrow> [] | Some rows \<Rightarrow> rows)\<rparr>))"
  by (simp add: exec_sql_def)

lemma safe_autocommit_tbl:
  assumes "safe w" and "rows_fit rows"
  shows "safe (autocommit (w\<lparr>tbl := Some rows\<rparr>))"
proof -
  from assms have "keys_fit (w\<lparr>tbl := Some rows\<rparr>)" by (simp add: safe_def keys_fit_set_tbl)
  then have "keys_fit (autocommit (w\<lparr>tbl := Some rows\<rparr>))" by (rule keys_fit_autocommit)
  with assms show ?thesis by (simp add: safe_def)
qed

lemma setup_test_safe:
  "triple (\<lambda>w. safe w \<and> tbl w = None \<and> A (stmts w)) setup_test
     (\<lambda>_ w. safe w \<and> tbl w = Some [] \<and> A (stmts w)) died"
  unfolding setup_test_def
proof (rule triple_exec_checked)
  fix w assume "safe w \<and> tbl w = None \<and> A (stmts w)"
  then show "clean (trace w)" by (simp add: safe_def)
next
  fix w w1
  assume a: "safe w \<and> tbl w = None \<and> A (stmts w)" and "exec_sql CREATE_TABLE_IF_NOT_EXISTS w = Inr w1"
  then have w1: "w1 = autocommit (w\<lparr>tbl := Some []\<rparr>)" by (simp add: exec_sql_create)
  from a have "safe (autocommit (w\<lparr>tbl := Some []\<rparr>))" by (intro safe_autocommit_tbl) simp_all
  with a show "safe (logged (Exec CREATE_TABLE_IF_NOT_EXISTS) SQLITE_OK w1) \<and>
      tbl (logged (Exec CREATE_TABLE_IF_NOT_EXISTS) SQLITE_OK w1) = Some [] \<and>
      A (stmts (logged (Exec CREATE_TABLE_IF_NOT_EXISTS) SQLITE_OK w1))"
    by (simp add: w1)
qed

lemma setup_test_safe_any:
  "triple safe setup_test (\<lambda>_. safe) died"
  unfolding setup_test_def
proof (rule triple_exec_checked)
  fix w assume "safe w"
  then show "clean (trace w)" by (simp add: safe_def)
next
  fix w w1
  assume a: "safe w" and "exec_sql CREATE_TABLE_IF_NOT_EXISTS w = Inr w1"
  then have w1: "w1 = autocommit (w\<lparr>tbl := Some (case tbl w of None \<Rightarrow> [] | Some rows \<Rightarrow> rows)\<rparr>)"
    by (simp add: exec_sql_create)
  have "rows_fit (case tbl w of None \<Rightarrow> [] | Some rows \<Rightarrow> rows)"
    using a by (auto simp add: safe_def keys_fit_def split: option.splits)
  with a have "safe w1" unfolding w1 by (rule safe_autocommit_tbl)
  then show "safe (logged (Exec CREATE_TABLE_IF_NOT_EXISTS) SQLITE_OK w1)"
    by simp
qed

subsection \<open>Transactions\<close>

lemma exec_sql_begin:
  "exec_sql BEGIN_TRANSACTION w = Inr w1 \<Longrightarrow> w1 = w\<lparr>in_txn := True\<rparr>"
  by (simp add: exec_sql_def split: if_splits)

lemma exec_sql_commit:
  "exec_sql COMMIT_TRANSACTION w = Inr w1 \<Longrightarrow> w1 = w\<lparr>in_txn := False, disk := tbl w\<rparr>"
  by (simp add: exec_sql_def split: if_splits)

lemma safe_begin: "safe w \<Longrightarrow> safe (w\<lparr>in_txn := True\<rparr>)"
  by (simp add: safe_def)

lemma safe_commit: "safe w \<Longrightarrow> safe (w\<lparr>in_txn := False, disk := tbl w\<rparr>)"
  by (simp add: safe_def keys_fit_def)

lemma begin_safe:
  assumes "\<And>w. A (w\<lparr>in_txn := True\<rparr>) = A w" and "\<And>w c rc. A (logged c rc w) = A w"
  shows "triple (\<lambda>w. safe w \<and> A w)
     (bnd (sqlite3_exec BEGIN_TRANSACTION) (\<lambda>rc. if_then (rc \<noteq> SQLITE_OK) die_db_error))
     (\<lambda>_ w. safe w \<and> A w) died"
proof (rule triple_exec_checked)
  fix w assume "safe w \<and> A w"
  then show "clean (trace w)" by (simp add: safe_def)
next
  fix w w1
  assume a: "safe w \<and> A w" and "exec_sql BEGIN_TRANSACTION w = Inr w1"
  then have w1: "w1 = w\<lparr>in_txn := True\<rparr>" by (simp add: exec_sql_begin)
  from a show "safe (logged (Exec BEGIN_TRANSACTION) SQLITE_OK w1) \<and>
      A (logged (Exec BEGIN_TRANSACTION) SQLITE_OK w1)"
    by (simp add: w1 assms safe_begin)
qed

lemma commit_safe:
  assumes "\<And>w. A w \<Longrightarrow> B (w\<lparr>in_txn := False, disk := tbl w\<rparr>)" and "\<And>w c rc. B (logged c rc w) = B w"
  shows "triple (\<lambda>w. safe w \<and> A w)
     (bnd (sqlite3_exec COMMIT_TRANSACTION) (\<lambda>rc. if_then (rc \<noteq> SQLITE_OK) die_db_error))
     (\<lambda>_ w. safe w \<and> B w) died"
proof (rule triple_exec_checked)
  fix w assume "safe w \<and> A w"
  then show "clean (trace w)" by (simp add: safe_def)
next
  fix w w1
  assume a: "safe w \<and> A w" and "exec_sql COMMIT_TRANSACTION w = Inr w1"
  then have w1: "w1 = w\<lparr>in_txn := False, disk := tbl w\<rparr>" by (simp add: exec_sql_commit)
  from a show "safe (logged (Exec COMMIT_TRANSACTION) SQLITE_OK w1) \<and>
      B (logged (Exec COMMIT_TRANSACTION) SQLITE_OK w1)"
    by (simp add: w1 assms safe_commit)
qed

subsection \<open>The insert strategies\<close>

lemma show_int_fits: "0 \<le> i \<Longrightarrow> i \<le> INT_MAX \<Longrightarrow> length (show_int i) \<le> 10"
  by (rule length_show_int) (simp_all add: INT_MAX_def)

lemma fits_insert_rows_key: "0 \<le> i \<Longrightarrow> i \<le> INT_MAX \<Longrightarrow> fits_key (insert_rows_key i)"
  using show_int_fits [of i] by (simp add: fits_key_def KEY_SIZE_def insert_rows_key_eq)

lemma fits_insert_rows_xact_key: "0 \<le> i \<Longrightarrow> i \<le> INT_MAX \<Longrightarrow> fits_key (insert_rows_xact_key i)"
  using show_int_fits [of i] by (simp add: fits_key_def KEY_SIZE_def insert_rows_xact_key_eq)

lemma fits_insert_rows_xact_prepared_key:
  "0 \<le> i \<Longrightarrow> i \<le> INT_MAX \<Longrightarrow> fits_key (insert_rows_xact_prepared_key i)"
  using show_int_fits [of i] by (simp add: fits_key_def KEY_SIZE_def insert_rows_xact_prepared_key_eq)

lemma counted_simps [simp]:
  "counted g k (logged c rc w) = counted g k w"
  "counted g k (failed c rc msg w) = counted g k w"
  "counted g k (put_stmt h so w) = counted g k w"
  "counted g k (w\<lparr>rand_pos := p\<rparr>) = counted g k w"
  "counted g k (w\<lparr>in_txn := b\<rparr>) = counted g k w"
  "counted g k (w\<lparr>in_txn := b, disk := d\<rparr>) = counted g k w"
  "counted g k (w\<lparr>stmts := ss\<rparr>) = counted g k w"
  by (simp_all add: counted_def)

lemma store_insert_safe:
  assumes i: "store_insert k a b c d w = Inr w1" and s: "safe w" and f: "fits_key k"
    and n: "counted g j w"
  shows "safe w1 \<and> counted g (Suc j) w1 \<and> stmts w1 = stmts w"
proof -
  from i obtain rows where rows: "tbl w = Some rows"
    and w1: "w1 = autocommit (w\<lparr>tbl := Some (rows @
           [\<lparr>rowid = next_rowid rows, key = k, num1 = a, num2 = b, num3 = c, num4 = d\<rparr>])\<rparr>)"
    by (rule store_insert_Inr)
  from s have "keys_fit w" by (simp add: safe_def)
  then have "rows_fit rows" using rows by (rule keys_fit_tbl)
  with f have "rows_fit (rows @ [\<lparr>rowid = next_rowid rows, key = k, num1 = a, num2 = b, num3 = c, num4 = d\<rparr>])"
    by simp
  with s have "safe w1" unfolding w1 by (rule safe_autocommit_tbl)
  moreover from n rows have "counted g (Suc j) w1"
    by (simp add: w1 counted_def)
  ultimately show ?thesis by (simp add: w1)
qed

lemma insert_exec_safe:
  assumes f: "fits_key k"
  shows "triple (\<lambda>w. safe w \<and> counted g j w)
     (bnd (sqlite3_exec (INSERT_VALUES k a b c d)) (\<lambda>rc. if_then (rc \<noteq> SQLITE_OK) die_db_error))
     (\<lambda>_ w. safe w \<and> counted g (Suc j) w) died"
proof (rule triple_exec_checked)
  fix w assume "safe w \<and> counted g j w"
  then show "clean (trace w)" by (simp add: safe_def)
next
  fix w w1
  assume a: "safe w \<and> counted g j w" and e: "exec_sql (INSERT_VALUES k a b c d) w = Inr w1"
  from e obtain a1 b1 c1 d1 where "store_insert k a1 b1 c1 d1 w = Inr w1"
    by (auto simp add: exec_sql_def split: option.splits)
  with a f have "safe w1 \<and> counted g (Suc j) w1 \<and> stmts w1 = stmts w"
    by (intro store_insert_safe) simp_all
  then show "safe (logged (Exec (INSERT_VALUES k a b c d)) SQLITE_OK w1) \<and>
      counted g (Suc j) (logged (Exec (INSERT_VALUES k a b c d)) SQLITE_OK w1)"
    by simp
qed

lemma rand_double_safe:
  assumes "\<And>w p. A (w\<lparr>rand_pos := p\<rparr>) = A w"
  shows "triple (\<lambda>w. safe w \<and> A w) rand_double (\<lambda>_ w. safe w \<and> A w) E"
  by (rule triple_rand_double) (simp add: assms)

lemma insert_rows_body_safe:
  assumes i: "0 \<le> i" "i \<le> INT_MAX"
  shows "triple (\<lambda>w. safe w \<and> counted g j w) (insert_rows_body i)
     (\<lambda>_ w. safe w \<and> counted g (Suc j) w) died"
  unfolding insert_rows_body_def
  apply (rule triple_bnd [where R = "\<lambda>k w. fits_key k \<and> (safe w \<and> counted g j w)"])
   apply (rule triple_sprintf_key)
    apply (rule fits_insert_rows_key [OF i])
   apply (simp add: fits_insert_rows_key [OF i])
  apply (rule triple_assume)
  apply (rule triple_bnd [where R = "\<lambda>_ w. safe w \<and> counted g j w"])
   apply (rule rand_double_safe, simp)
  apply (rule triple_bnd [where R = "\<lambda>_ w. safe w \<and> counted g j w"])
   apply (rule rand_double_safe, simp)
  apply (rule triple_bnd [where R = "\<lambda>_ w. safe w \<and> counted g j w"])
   apply (rule rand_double_safe, simp)
  apply (rule triple_bnd [where R = "\<lambda>_ w. safe w \<and> counted g j w"])
   apply (rule rand_double_safe, simp)
  apply (rule insert_exec_safe)
  apply assumption
  done

lemma insert_rows_xact_body_safe:
  assumes i: "0 \<le> i" "i \<le> INT_MAX"
  shows "triple (\<lambda>w. safe w \<and> counted g j w) (insert_rows_xact_body i)
     (\<lambda>_ w. safe w \<and> counted g (Suc j) w) died"
  unfolding insert_rows_xact_body_def
  apply (rule triple_bnd [where R = "\<lambda>k w. fits_key k \<and> (safe w \<and> counted g j w)"])
   apply (rule triple_sprintf_key)
    apply (rule fits_insert_rows_xact_key [OF i])
   apply (simp add: fits_insert_rows_xact_key [OF i])
  apply (rule triple_assume)
  apply (rule triple_bnd [where R = "\<lambda>_ w. safe w \<and> counted g j w"])
   apply (rule rand_double_safe, simp)
  apply (rule triple_bnd [where R = "\<lambda>_ w. safe w \<and> counted g j w"])
   apply (rule rand_double_safe, simp)
  apply (rule triple_bnd [where R = "\<lambda>_ w. safe w \<and> counted g j w"])
   apply (rule rand_double_safe, simp)
  apply (rule triple_bnd [where R = "\<lambda>_ w. safe w \<and> counted g j w"])
   apply (rule rand_double_safe, simp)
  apply (rule insert_exec_safe)
  apply assumption
  done

text \<open>A loop whose body adds one row at each turn.\<close>

lemma for_loop_counted:
  assumes body: "\<And>i j. 0 \<le> i \<Longrightarrow> i < n \<Longrightarrow>
      triple (\<lambda>w. safe w \<and> counted g j w \<and> A w) (body i) (\<lambda>_ w. safe w \<and> counted g (Suc j) w \<and> A w) died"
    and n: "0 \<le> n"
  shows "triple (\<lambda>w. safe w \<and> counted g 0 w \<and> A w) (for_loop 0 n body)
     (\<lambda>_ w. safe w \<and> counted g (nat n) w \<and> A w) died"
proof -
  have "triple (\<lambda>w. safe w \<and> counted g (nat 0) w \<and> A w) (for_loop 0 n body)
      (\<lambda>_ w. safe w \<and> counted g (nat n) w \<and> A w) died"
  proof (rule triple_for [where I = "\<lambda>i w. safe w \<and> counted g (nat i) w \<and> A w"])
    fix i :: int
    assume i: "0 \<le> i" "i < n"
    then have "nat (i + 1) = Suc (nat i)" by simp
    with body [OF i, of "nat i"]
    show "triple (\<lambda>w. safe w \<and> counted g (nat i) w \<and> A w) (body i)
        (\<lambda>_ w. safe w \<and> counted g (nat (i + 1)) w \<and> A w) died"
      by simp
  qed (rule n)
  then show ?thesis by simp
qed

lemma insert_rows_safe:
  assumes n: "0 \<le> n" "n \<le> INT_MAX"
  shows "triple (\<lambda>w. safe w \<and> counted g 0 w) (insert_rows n)
     (\<lambda>_ w. safe w \<and> counted g (nat n) w) died"
proof -
  have "triple (\<lambda>w. safe w \<and> counted g 0 w \<and> True) (for_loop 0 n insert_rows_body)
      (\<lambda>_ w. safe w \<and> counted g (nat n) w \<and> True) died"
  proof (rule for_loop_counted)
    fix i :: int and j
    assume "0 \<le> i" "i < n"
    with n have "0 \<le> i" "i \<le> INT_MAX" by simp_all
    then have "triple (\<lambda>w. safe w \<and> counted g j w) (insert_rows_body i)
        (\<lambda>_ w. safe w \<and> counted g (Suc j) w) died"
      by (rule insert_rows_body_safe)
    then show "triple (\<lambda>w. safe w \<and> counted g j w \<and> True) (insert_rows_body i)
        (\<lambda>_ w. safe w \<and> counted g (Suc j) w \<and> True) died"
      by simp
  qed (rule n)
  then show ?thesis by (simp add: insert_rows_def)
qed

lemma insert_rows_xact_safe:
  assumes n: "0 \<le> n" "n \<le> INT_MAX"
  shows "triple (\<lambda>w. safe w \<and> counted g 0 w) (insert_rows_xact n)
     (\<lambda>_ w. safe w \<and> counted g (nat n) w) died"
  unfolding insert_rows_xact_def
proof (rule triple_andthen [OF _ triple_andthen])
  show "triple (\<lambda>w. safe w \<and> counted g 0 w)
      (bnd (sqlite3_exec BEGIN_TRANSACTION) (\<lambda>rc. if_then (rc \<noteq> SQLITE_OK) die_db_error))
      (\<lambda>_ w. safe w \<and> counted g 0 w \<and> True) died"
    using begin_safe [where A = "counted g 0"] by simp
  show "triple (\<lambda>w. safe w \<and> counted g 0 w \<and> True) (for_loop 0 n insert_rows_xact_body)
      (\<lambda>_ w. safe w \<and> counted g (nat n) w \<and> True) died"
  proof (rule for_loop_counted)
    fix i :: int and j
    assume "0 \<le> i" "i < n"
    with n have "0 \<le> i" "i \<le> INT_MAX" by simp_all
    then have "triple (\<lambda>w. safe w \<and> counted g j w) (insert_rows_xact_body i)
        (\<lambda>_ w. safe w \<and> counted g (Suc j) w) died"
      by (rule insert_rows_xact_body_safe)
    then show "triple (\<lambda>w. safe w \<and> counted g j w \<and> True) (insert_rows_xact_body i)
        (\<lambda>_ w. safe w \<and> counted g (Suc j) w \<and> True) died"
      by simp
  qed (rule n)
  show "triple (\<lambda>w. safe w \<and> counted g (nat n) w \<and> True)
      (bnd (sqlite3_exec COMMIT_TRANSACTION) (\<lambda>rc. if_then (rc \<noteq> SQLITE_OK) die_db_error))
      (\<lambda>_ w. safe w \<and> counted g (nat n) w) died"
    using commit_safe [where A = "counted g (nat n)" and B = "counted g (nat n)"] by simp
qed

lemma is_stmt_put_same:
  "is_stmt w h q \<Longrightarrow> get_stmt w h = Some s \<Longrightarrow> stmt_sql s' = stmt_sql s \<Longrightarrow>
   is_stmt (put_stmt h (Some s') w) h q"
  by (simp add: is_stmt_def get_stmt_Some_length)

lemma stable_at_counted_is_stmt: "stable_at h (\<lambda>w. counted g j w \<and> is_stmt w h q)"
proof -
  have "counted g j (put_stmt h (Some s') w) \<and> is_stmt (put_stmt h (Some s') w) h q"
    if "counted g j w \<and> is_stmt w h q" "get_stmt w h = Some s" "stmt_sql s' = stmt_sql s"
    for w s s'
    using that is_stmt_put_same [of w h q s s'] by simp
  then show ?thesis
    unfolding stable_at_def by (intro conjI allI impI) simp_all
qed

lemma is_stmt_eq: "stmts w' = stmts w \<Longrightarrow> is_stmt w' h q = is_stmt w h q"
  by (simp add: is_stmt_def get_stmt_def)

lemma triple_block_cons:
  assumes "triple P p (\<lambda>_. R) E" and "triple R (block ps) Q E"
  shows "triple P (block (p # ps)) Q E"
  using assms by (simp add: triple_andthen)

lemma triple_block_nil: "triple P (block []) (\<lambda>_. P) E"
  by (simp add: triple_skip)

lemma step_insert_safe:
  "triple (\<lambda>w. safe w \<and> counted g j w \<and> is_stmt w h INSERT_PARAMS)
     (bnd (sqlite3_step h) (\<lambda>rc. if_then (rc \<noteq> SQLITE_DONE) die_db_error))
     (\<lambda>_ w. safe w \<and> counted g (Suc j) w \<and> is_stmt w h INSERT_PARAMS) died"
proof (rule triple_step_insert_checked)
  fix w assume "safe w \<and> counted g j w \<and> is_stmt w h INSERT_PARAMS"
  then show "clean (trace w)" "is_stmt w h INSERT_PARAMS" by (simp_all add: safe_def)
next
  fix w s w1
  assume a: "safe w \<and> counted g j w \<and> is_stmt w h INSERT_PARAMS"
    and s: "get_stmt w h = Some s" and i: "step_insert s w = Inr w1"
  from i obtain k a' b c d where k: "params s 1 = Some (Text k)"
    and st: "store_insert k a' b c d w = Inr w1"
    by (rule step_insert_Inr)
  from a s have "stmt_fits (Some s)" by (blast intro: safe_get_stmt)
  with k have "fits_key k" by (simp add: stmt_fits_def)
  with st a have "safe w1 \<and> counted g (Suc j) w1 \<and> stmts w1 = stmts w"
    by (intro store_insert_safe) simp_all
  moreover from this a have "is_stmt w1 h INSERT_PARAMS"
    using is_stmt_eq [of w1 w h INSERT_PARAMS] by simp
  ultimately show "safe (logged (Step h (Some INSERT_PARAMS)) SQLITE_DONE w1) \<and>
      counted g (Suc j) (logged (Step h (Some INSERT_PARAMS)) SQLITE_DONE w1) \<and>
      is_stmt (logged (Step h (Some INSERT_PARAMS)) SQLITE_DONE w1) h INSERT_PARAMS"
    by simp
qed

lemma insert_rows_xact_prepared_body_safe:
  assumes i: "0 \<le> i" "i \<le> INT_MAX"
  shows "triple (\<lambda>w. safe w \<and> counted g j w \<and> is_stmt w h INSERT_PARAMS)
     (insert_rows_xact_prepared_body h i)
     (\<lambda>_ w. safe w \<and> counted g (Suc j) w \<and> is_stmt w h INSERT_PARAMS) died"
proof -
  let ?A = "\<lambda>w. counted g j w \<and> is_stmt w h INSERT_PARAMS"
  let ?B = "\<lambda>w. counted g (Suc j) w \<and> is_stmt w h INSERT_PARAMS"
  have A: "stable_at h ?A" and B: "stable_at h ?B"
    by (rule stable_at_counted_is_stmt)+
  have r: "triple (\<lambda>w. safe w \<and> ?A w) rand_double (\<lambda>_ w. safe w \<and> ?A w) died"
    by (rule rand_double_safe) simp
  have f: "fits_key (insert_rows_xact_prepared_key i)"
    by (rule fits_insert_rows_xact_prepared_key [OF i])
  have tail: "triple (\<lambda>w. safe w \<and> ?A w)
      (block
        [ignore (sqlite3_bind_text h 1 k),
         ignore (sqlite3_bind_double h 2 n1),
         ignore (sqlite3_bind_double h 3 n2),
         ignore (sqlite3_bind_double h 4 n3),
         ignore (sqlite3_bind_double h 5 n4),
         bnd (sqlite3_step h) (\<lambda>rc. if_then (rc \<noteq> SQLITE_DONE) die_db_error),
         ignore (sqlite3_clear_bindings h),
         ignore (sqlite3_reset h)])
      (\<lambda>_ w. safe w \<and> ?B w) died" if k: "fits_key k" for k n1 n2 n3 n4
    unfolding block.simps
    apply (rule triple_andthen [OF bind_text_safe [OF A k]])
    apply (rule triple_andthen [OF bind_double_safe [OF A]])
    apply (rule triple_andthen [OF bind_double_safe [OF A]])
    apply (rule triple_andthen [OF bind_double_safe [OF A]])
    apply (rule triple_andthen [OF bind_double_safe [OF A]])
    apply (rule triple_andthen [OF step_insert_safe])
    apply (rule triple_andthen [OF clear_bindings_safe [OF B]])
    apply (rule triple_andthen [OF reset_safe [OF B]])
    apply (rule triple_skip)
    done
  show ?thesis
    unfolding insert_rows_xact_prepared_body_def
    apply (rule triple_bnd [where R = "\<lambda>k w. fits_key k \<and> (safe w \<and> ?A w)"])
     apply (rule triple_sprintf_key [OF f])
     apply (simp add: f)
    apply (rule triple_assume)
    apply (rule triple_bnd [OF r])
    apply (rule triple_bnd [OF r])
    apply (rule triple_bnd [OF r])
    apply (rule triple_bnd [OF r])
    apply (erule tail)
    done
qed

lemma safe_new_stmt:
  "safe w \<Longrightarrow> safe (logged (Prepare q) SQLITE_OK (w\<lparr>stmts := stmts w @ [Some (new_stmt q)]\<rparr>))"
  by (simp add: safe_def keys_fit_new_stmt)

lemma is_stmt_new_stmt:
  "is_stmt (w\<lparr>stmts := stmts w @ [Some (new_stmt q)]\<rparr>) (length (stmts w)) q"
  by (simp add: is_stmt_def new_stmt_def)

lemma is_stmt_length: "is_stmt w h q \<Longrightarrow> h < length (stmts w)"
  by (auto simp add: is_stmt_def dest: get_stmt_Some_length split: option.splits)

lemma is_stmt_append:
  "is_stmt w h q \<Longrightarrow> is_stmt (w\<lparr>stmts := stmts w @ [so]\<rparr>) h q"
  using is_stmt_length [of w h q] by (simp add: is_stmt_def)

lemma insert_rows_xact_prepared_safe:
  assumes n: "0 \<le> n" "n \<le> INT_MAX"
  shows "triple (\<lambda>w. safe w \<and> counted g 0 w) (insert_rows_xact_prepared n)
     (\<lambda>_ w. safe w \<and> counted g (nat n) w) died"
  unfolding insert_rows_xact_prepared_def
proof (rule triple_andthen)
  show "triple (\<lambda>w. safe w \<and> counted g 0 w)
      (bnd (sqlite3_exec BEGIN_TRANSACTION) (\<lambda>rc. if_then (rc \<noteq> SQLITE_OK) die_db_error))
      (\<lambda>_ w. safe w \<and> counted g 0 w) died"
    by (rule begin_safe) simp_all
  show "triple (\<lambda>w. safe w \<and> counted g 0 w)
      (bnd (sqlite3_prepare_v3 INSERT_PARAMS) (\<lambda>(rc, stmt).
         andthen (if_then (rc \<noteq> SQLITE_OK) die_db_error)
        (andthen (for_loop 0 n (insert_rows_xact_prepared_body stmt))
        (andthen (bnd (sqlite3_exec COMMIT_TRANSACTION) (\<lambda>rc. if_then (rc \<noteq> SQLITE_OK) die_db_error))
                 (ignore (sqlite3_finalize stmt))))))
      (\<lambda>_ w. safe w \<and> counted g (nat n) w) died"
  proof (rule triple_prepare_checked
      [where R = "\<lambda>h w. safe w \<and> counted g 0 w \<and> is_stmt w h INSERT_PARAMS"])
    fix w assume "safe w \<and> counted g 0 w"
    then show "clean (trace w)" by (simp add: safe_def)
  next
    fix w assume a: "safe w \<and> counted g 0 w"
    let ?w = "w\<lparr>stmts := stmts w @ [Some (new_stmt INSERT_PARAMS)]\<rparr>"
    from a have "safe (logged (Prepare INSERT_PARAMS) SQLITE_OK ?w)" by (blast intro: safe_new_stmt)
    moreover from a have "counted g 0 ?w" by simp
    moreover have "is_stmt ?w (length (stmts w)) INSERT_PARAMS" by (rule is_stmt_new_stmt)
    ultimately show "safe (logged (Prepare INSERT_PARAMS) SQLITE_OK ?w) \<and>
        counted g 0 (logged (Prepare INSERT_PARAMS) SQLITE_OK ?w) \<and>
        is_stmt (logged (Prepare INSERT_PARAMS) SQLITE_OK ?w) (length (stmts w)) INSERT_PARAMS"
      by simp
  next
    fix h
    show "triple (\<lambda>w. safe w \<and> counted g 0 w \<and> is_stmt w h INSERT_PARAMS)
        (andthen (for_loop 0 n (insert_rows_xact_prepared_body h))
        (andthen (bnd (sqlite3_exec COMMIT_TRANSACTION) (\<lambda>rc. if_then (rc \<noteq> SQLITE_OK) die_db_error))
                 (ignore (sqlite3_finalize h))))
        (\<lambda>_ w. safe w \<and> counted g (nat n) w) died"
    proof (rule triple_andthen [OF _ triple_andthen])
      show "triple (\<lambda>w. safe w \<and> counted g 0 w \<and> is_stmt w h INSERT_PARAMS)
          (for_loop 0 n (insert_rows_xact_prepared_body h))
          (\<lambda>_ w. safe w \<and> counted g (nat n) w \<and> is_stmt w h INSERT_PARAMS) died"
      proof (rule for_loop_counted)
        fix i :: int and j
        assume "0 \<le> i" "i < n"
        with n have "0 \<le> i" "i \<le> INT_MAX" by simp_all
        then show "triple (\<lambda>w. safe w \<and> counted g j w \<and> is_stmt w h INSERT_PARAMS)
            (insert_rows_xact_prepared_body h i)
            (\<lambda>_ w. safe w \<and> counted g (Suc j) w \<and> is_stmt w h INSERT_PARAMS) died"
          by (rule insert_rows_xact_prepared_body_safe)
      qed (rule n)
      show "triple (\<lambda>w. safe w \<and> counted g (nat n) w \<and> is_stmt w h INSERT_PARAMS)
          (bnd (sqlite3_exec COMMIT_TRANSACTION) (\<lambda>rc. if_then (rc \<noteq> SQLITE_OK) die_db_error))
          (\<lambda>_ w. safe w \<and> counted g (nat n) w \<and> is_stmt w h INSERT_PARAMS) died"
        by (rule commit_safe) (simp_all add: counted_def)
      show "triple (\<lambda>w. safe w \<and> counted g (nat n) w \<and> is_stmt w h INSERT_PARAMS)
          (ignore (sqlite3_finalize h))
          (\<lambda>_ w. safe w \<and> counted g (nat n) w) died"
        by (rule finalize_safe) simp_all
    qed
  qed
qed

lemma setup_update_test_safe:
  assumes n: "0 \<le> n" "n \<le> INT_MAX"
  shows "triple (\<lambda>w. safe w \<and> tbl w = None) (setup_update_test n)
     (\<lambda>_ w. safe w \<and> counted g (nat n) w) died"
  unfolding setup_update_test_def
proof (rule triple_andthen)
  show "triple (\<lambda>w. safe w \<and> tbl w = None) setup_test (\<lambda>_ w. safe w \<and> counted g 0 w) died"
    using setup_test_safe [where A = "\<lambda>_. True"]
    by (rule triple_weaken) (simp_all add: counted_def)
  show "triple (\<lambda>w. safe w \<and> counted g 0 w) (insert_rows_xact_prepared n)
      (\<lambda>_ w. safe w \<and> counted g (nat n) w) died"
    using n by (rule insert_rows_xact_prepared_safe)
qed

subsection \<open>The update strategies\<close>

lemma on_row_simps [simp]:
  "on_row h k (logged c rc w) = on_row h k w"
  "on_row h k (failed c rc msg w) = on_row h k w"
  "on_row h k (autocommit w) = on_row h k w"
  "on_row h k (w\<lparr>tbl := t\<rparr>) = on_row h k w"
  by (simp_all add: on_row_def)

lemma on_row_pending_rows: "on_row h k w \<Longrightarrow> pending_rows h w < k"
  by (auto simp add: on_row_def pending_rows_def)

lemma is_stmt_put_other:
  "h' \<noteq> h \<Longrightarrow> is_stmt (put_stmt h so w) h' q = is_stmt w h' q"
  by (simp add: is_stmt_def)

lemma on_row_put_other:
  "h' \<noteq> h \<Longrightarrow> on_row h' k (put_stmt h so w) = on_row h' k w"
  by (simp add: on_row_def)

lemma stmt_fits_done: "stmt_fits (Some s) \<Longrightarrow> stmt_fits (Some (s\<lparr>cursor := None, current := None\<rparr>))"
  by (simp add: stmt_fits_def)

lemma stmt_fits_row:
  "stmt_fits (Some s) \<Longrightarrow> rows_fit (x # rest) \<Longrightarrow>
   stmt_fits (Some (s\<lparr>cursor := Some rest, current := Some x\<rparr>))"
  by (simp add: stmt_fits_def)

lemma stmt_fits_cursor: "stmt_fits (Some s) \<Longrightarrow> cursor s = Some p \<Longrightarrow> rows_fit p"
  by (simp add: stmt_fits_def)

lemma stmt_fits_current: "stmt_fits (Some s) \<Longrightarrow> current s = Some r \<Longrightarrow> fits_key (key r)"
  by (simp add: stmt_fits_def)

text \<open>The invariant of the loops, and what a change of the SELECT statement does to it.\<close>

lemma inv_put_sel:
  assumes "safe w" and "is_stmt w sel q" and "is_stmt w up q'" and "get_stmt w sel = Some s"
    and "stmt_sql s' = stmt_sql s" and "stmt_fits (Some s')" and "sel \<noteq> up"
  shows "safe (put_stmt sel (Some s') w) \<and> is_stmt (put_stmt sel (Some s') w) sel q \<and>
     is_stmt (put_stmt sel (Some s') w) up q'"
proof -
  from assms have "safe (put_stmt sel (Some s') w)" by (simp add: safe_put_stmt)
  moreover from assms have "is_stmt (put_stmt sel (Some s') w) sel q" by (simp add: is_stmt_put_same)
  moreover from assms have "is_stmt (put_stmt sel (Some s') w) up q'" by (simp add: is_stmt_put_other)
  ultimately show ?thesis by simp
qed

lemma select_cond_safe:
  assumes q: "q = SELECT_ORDER_BY_key \<or> q = SELECT_ORDER_BY_rowid" and ne: "sel \<noteq> up"
  shows "triple (\<lambda>w. (safe w \<and> is_stmt w sel q \<and> is_stmt w up q') \<and> pending_rows sel w = k)
     (bnd (sqlite3_step sel) (\<lambda>rc. ret (rc = SQLITE_ROW)))
     (\<lambda>b w. if b then (safe w \<and> is_stmt w sel q \<and> is_stmt w up q') \<and> on_row sel k w
            else safe w \<and> is_stmt w sel q \<and> is_stmt w up q') E"
proof -
  let ?I = "\<lambda>w. safe w \<and> is_stmt w sel q \<and> is_stmt w up q'"
  let ?Q = "\<lambda>rc w. if rc = SQLITE_ROW then ?I w \<and> on_row sel k w else ?I w"
  from q obtain order :: "test_t list \<Rightarrow> test_t list" where o: "q = SELECT_ORDER_BY_key \<and> order = sort_key key \<or>
      q = SELECT_ORDER_BY_rowid \<and> order = sort_key rowid" by auto
  then have fit: "rows_fit (order rows) = rows_fit rows" and len: "length (order rows) = length rows"
    for rows :: "test_t list" by (auto simp add: rows_fit_sort_key)
  from q have nf: "\<not> mutation q" by auto
  have step: "triple (\<lambda>w. ?I w \<and> pending_rows sel w = k) (sqlite3_step sel) ?Q E"
  proof (rule triple_step_select [OF _ o])
    fix w assume "?I w \<and> pending_rows sel w = k"
    then show "is_stmt w sel q" by simp
  next
    fix w s rc msg
    assume a: "?I w \<and> pending_rows sel w = k" and s: "get_stmt w sel = Some s"
      and f: "injected w = Some (rc, msg) \<or> injected w = None \<and> tbl w = None \<and> rc = SQLITE_ERROR"
    let ?w = "put_stmt sel (Some (s\<lparr>last_rc := rc\<rparr>)) w"
    from f have rc: "rc \<noteq> SQLITE_ROW" by (auto dest: injected_status)
    from a s have "stmt_fits (Some s)" by (blast intro: safe_get_stmt)
    then have "stmt_fits (Some (s\<lparr>last_rc := rc\<rparr>))" by (rule stmt_fits_last_rc)
    with a s ne have "?I ?w" by (intro inv_put_sel [of w sel q up q' s]) simp_all
    with rc show "?Q rc (failed (Step sel (Some q)) rc msg ?w)" by (simp add: nf)
  next
    fix w s rows
    assume a: "?I w \<and> pending_rows sel w = k" and s: "get_stmt w sel = Some s"
    let ?w = "put_stmt sel (Some (s\<lparr>cursor := None, current := None\<rparr>)) w"
    from a s have "stmt_fits (Some s)" by (blast intro: safe_get_stmt)
    then have "stmt_fits (Some (s\<lparr>cursor := None, current := None\<rparr>))" by (rule stmt_fits_done)
    with a s ne have "?I ?w" by (intro inv_put_sel [of w sel q up q' s]) simp_all
    then show "?Q SQLITE_DONE (logged (Step sel (Some q)) SQLITE_DONE ?w)" by (simp add: nf)
  next
    fix w s rows x rest
    assume a: "?I w \<and> pending_rows sel w = k" and s: "get_stmt w sel = Some s"
      and t: "tbl w = Some rows"
      and c: "(case cursor s of None \<Rightarrow> order rows | Some pending \<Rightarrow> pending) = x # rest"
    let ?s = "s\<lparr>cursor := Some rest, current := Some x\<rparr>"
    let ?w = "put_stmt sel (Some ?s) w"
    from a s have sf: "stmt_fits (Some s)" by (blast intro: safe_get_stmt)
    from a have "keys_fit w" by (simp add: safe_def)
    then have "rows_fit rows" using t by (rule keys_fit_tbl)
    with c sf have "rows_fit (x # rest)"
      using fit [of rows] by (cases "cursor s") (auto dest: stmt_fits_cursor)
    with sf have "stmt_fits (Some ?s)" by (rule stmt_fits_row)
    with a s ne have i: "?I ?w" by (intro inv_put_sel [of w sel q up q' s]) simp_all
    from a s t c have "length rest < k"
      using len [of rows] by (cases "cursor s") (auto simp add: pending_rows_def)
    moreover from s have "get_stmt ?w sel = Some ?s" by (simp add: get_stmt_Some_length)
    ultimately have "on_row sel k ?w" by (simp add: on_row_def)
    with i show "?Q SQLITE_ROW (logged (Step sel (Some q)) SQLITE_ROW ?w)" by (simp add: nf)
  qed
  show ?thesis
    by (rule triple_bnd [OF step]) (rule triple_ret', simp)
qed

lemma triple_strcpy_key':
  "triple (\<lambda>w. (\<exists>s. src = Some s \<and> fits_key s) \<and> P w) (strcpy_key src) (\<lambda>k w. fits_key k \<and> P w) E"
  by (rule tripleI) (auto simp add: strcpy_key_def ret_def)

lemma column_double_any: "triple P (sqlite3_column_double h col) (\<lambda>_. P) E"
  unfolding sqlite3_column_double_def by (rule triple_gets')

lemma column_int64_any: "triple P (sqlite3_column_int64 h col) (\<lambda>_. P) E"
  unfolding sqlite3_column_int64_def by (rule triple_gets')

lemma stable_at_loop:
  assumes ne: "sel \<noteq> up"
  shows "stable_at up (\<lambda>w. is_stmt w sel q \<and> is_stmt w up q' \<and> on_row sel k w)"
proof -
  have "is_stmt (put_stmt up (Some s') w) sel q \<and> is_stmt (put_stmt up (Some s') w) up q' \<and>
      on_row sel k (put_stmt up (Some s') w)"
    if "is_stmt w sel q \<and> is_stmt w up q' \<and> on_row sel k w" "get_stmt w up = Some s"
      "stmt_sql s' = stmt_sql s" for w s s'
    using that ne is_stmt_put_same [of w up q' s s']
    by (simp add: is_stmt_put_other on_row_put_other)
  then show ?thesis
    unfolding stable_at_def by (intro conjI allI impI) simp_all
qed

lemma store_update_safe:
  assumes u: "store_update wh a b c d w = Inr w1" and s: "safe w"
    and A: "\<And>w t. A (autocommit (w\<lparr>tbl := t\<rparr>)) = A w" and a: "A w"
  shows "safe w1 \<and> A w1"
proof -
  from u obtain rows where rows: "tbl w = Some rows"
    and w1: "w1 = autocommit (w\<lparr>tbl := Some (map (\<lambda>r. if wh r then set_nums a b c d r else r) rows)\<rparr>)"
    by (rule store_update_Inr)
  from s have "keys_fit w" by (simp add: safe_def)
  then have "rows_fit rows" using rows by (rule keys_fit_tbl)
  then have "rows_fit (map (\<lambda>r. if wh r then set_nums a b c d r else r) rows)"
    by (rule rows_fit_set_nums)
  with s have "safe w1" unfolding w1 by (rule safe_autocommit_tbl)
  with a show ?thesis by (simp add: w1 A)
qed

lemma step_update_key_safe:
  assumes st: "stable_at h A" and k: "\<And>w. A w \<Longrightarrow> is_stmt w h UPDATE_WHERE_key"
    and A: "\<And>w t. A (autocommit (w\<lparr>tbl := t\<rparr>)) = A w"
  shows "triple (\<lambda>w. safe w \<and> A w)
     (bnd (sqlite3_step h) (\<lambda>rc. if_then (rc \<noteq> SQLITE_DONE) die_db_error))
     (\<lambda>_ w. safe w \<and> A w) died"
proof (rule triple_step_update_key_checked)
  fix w assume "safe w \<and> A w"
  then show "clean (trace w)" "is_stmt w h UPDATE_WHERE_key" by (simp_all add: safe_def k)
next
  fix w s w1
  assume a: "safe w \<and> A w" and "step_update_key s w = Inr w1"
  then obtain a' b c d k where u: "store_update (\<lambda>r. key r = k) a' b c d w = Inr w1"
    by (auto elim: step_update_key_Inr)
  from a have sw: "safe w" and aw: "A w" by blast+
  have "safe w1 \<and> A w1" by (rule store_update_safe [OF u sw A aw])
  then show "safe (logged (Step h (Some UPDATE_WHERE_key)) SQLITE_DONE w1) \<and>
      A (logged (Step h (Some UPDATE_WHERE_key)) SQLITE_DONE w1)"
    by (simp add: stable_atD [OF st])
qed

lemma step_update_rowid_safe:
  assumes st: "stable_at h A" and k: "\<And>w. A w \<Longrightarrow> is_stmt w h UPDATE_WHERE_rowid"
    and A: "\<And>w t. A (autocommit (w\<lparr>tbl := t\<rparr>)) = A w"
  shows "triple (\<lambda>w. safe w \<and> A w)
     (bnd (sqlite3_step h) (\<lambda>rc. if_then (rc \<noteq> SQLITE_DONE) die_db_error))
     (\<lambda>_ w. safe w \<and> A w) died"
proof (rule triple_step_update_rowid_checked)
  fix w assume "safe w \<and> A w"
  then show "clean (trace w)" "is_stmt w h UPDATE_WHERE_rowid" by (simp_all add: safe_def k)
next
  fix w s w1
  assume a: "safe w \<and> A w" and "step_update_rowid s w = Inr w1"
  then obtain a' b c d k where u: "store_update (\<lambda>r. rowid r = k) a' b c d w = Inr w1"
    by (auto elim: step_update_rowid_Inr)
  from a have sw: "safe w" and aw: "A w" by blast+
  have "safe w1 \<and> A w1" by (rule store_update_safe [OF u sw A aw])
  then show "safe (logged (Step h (Some UPDATE_WHERE_rowid)) SQLITE_DONE w1) \<and>
      A (logged (Step h (Some UPDATE_WHERE_rowid)) SQLITE_DONE w1)"
    by (simp add: stable_atD [OF st])
qed

lemma update_rows_pk_body_safe:
  assumes ne: "sel \<noteq> up"
  shows "triple (\<lambda>w. (safe w \<and> is_stmt w sel SELECT_ORDER_BY_key \<and> is_stmt w up UPDATE_WHERE_key) \<and>
        on_row sel k w)
     (update_rows_pk_body sel up)
     (\<lambda>_ w. (safe w \<and> is_stmt w sel SELECT_ORDER_BY_key \<and> is_stmt w up UPDATE_WHERE_key) \<and>
        pending_rows sel w < k) died"
proof -
  let ?A = "\<lambda>w. is_stmt w sel SELECT_ORDER_BY_key \<and> is_stmt w up UPDATE_WHERE_key \<and> on_row sel k w"
  have A: "stable_at up ?A" using ne by (rule stable_at_loop)
  have tail: "triple (\<lambda>w. safe w \<and> ?A w)
      (block
        [ignore (sqlite3_bind_double up 1 n1),
         ignore (sqlite3_bind_double up 2 n2),
         ignore (sqlite3_bind_double up 3 n3),
         ignore (sqlite3_bind_double up 4 n4),
         ignore (sqlite3_bind_text up 5 row_key),
         bnd (sqlite3_step up) (\<lambda>up_rc. if_then (up_rc \<noteq> SQLITE_DONE) die_db_error),
         ignore (sqlite3_reset up),
         ignore (sqlite3_clear_bindings up)])
      (\<lambda>_ w. safe w \<and> ?A w) died" if k: "fits_key row_key" for row_key n1 n2 n3 n4
    unfolding block.simps
    apply (rule triple_andthen [OF bind_double_safe [OF A]])
    apply (rule triple_andthen [OF bind_double_safe [OF A]])
    apply (rule triple_andthen [OF bind_double_safe [OF A]])
    apply (rule triple_andthen [OF bind_double_safe [OF A]])
    apply (rule triple_andthen [OF bind_text_safe [OF A k]])
    apply (rule triple_andthen [OF step_update_key_safe [OF A]])
      apply simp
     apply simp
    apply (rule triple_andthen [OF reset_safe [OF A]])
    apply (rule triple_andthen [OF clear_bindings_safe [OF A]])
    apply (rule triple_skip)
    done
  have col: "triple (\<lambda>w. safe w \<and> ?A w) (sqlite3_column_text sel 0)
      (\<lambda>tmp w. (\<exists>s. tmp = Some s \<and> fits_key s) \<and> (safe w \<and> ?A w)) died"
    unfolding sqlite3_column_text_def
  proof (rule triple_gets')
    fix w assume a: "safe w \<and> ?A w"
    then obtain s r where s: "get_stmt w sel = Some s" "current s = Some r"
      by (auto simp add: on_row_def)
    with a have q: "stmt_sql s = SELECT_ORDER_BY_key" by (simp add: is_stmt_def)
    from a s have "stmt_fits (Some s)" by (blast intro: safe_get_stmt)
    then have "fits_key (key r)" using s(2) by (rule stmt_fits_current)
    with a s q show "(\<exists>k. (case get_stmt w sel of None \<Rightarrow> None
        | Some s \<Rightarrow> (case current s of None \<Rightarrow> None
            | Some r \<Rightarrow> if stmt_sql s = SELECT_ORDER_BY_key \<and> (0::nat) = 0 then Some (key r) else None))
        = Some k \<and> fits_key k) \<and> (safe w \<and> ?A w)"
      by simp
  qed
  have body: "triple (\<lambda>w. safe w \<and> ?A w) (update_rows_pk_body sel up) (\<lambda>_ w. safe w \<and> ?A w) died"
    unfolding update_rows_pk_body_def
    apply (rule triple_bnd [OF col])
    apply (rule triple_bnd [OF triple_strcpy_key'])
    apply (rule triple_assume)
    apply (rule triple_bnd [OF column_double_any])
    apply (rule triple_bnd [OF column_double_any])
    apply (rule triple_bnd [OF column_double_any])
    apply (rule triple_bnd [OF column_double_any])
    apply (erule tail)
    done
  show ?thesis
    by (rule triple_weaken [OF body]) (simp_all add: on_row_pending_rows)
qed

lemma update_rows_rowid_body_safe:
  assumes ne: "sel \<noteq> up"
  shows "triple (\<lambda>w. (safe w \<and> is_stmt w sel SELECT_ORDER_BY_rowid \<and> is_stmt w up UPDATE_WHERE_rowid) \<and>
        on_row sel k w)
     (update_rows_rowid_body sel up)
     (\<lambda>_ w. (safe w \<and> is_stmt w sel SELECT_ORDER_BY_rowid \<and> is_stmt w up UPDATE_WHERE_rowid) \<and>
        pending_rows sel w < k) died"
proof -
  let ?A = "\<lambda>w. is_stmt w sel SELECT_ORDER_BY_rowid \<and> is_stmt w up UPDATE_WHERE_rowid \<and> on_row sel k w"
  have A: "stable_at up ?A" using ne by (rule stable_at_loop)
  have tail: "triple (\<lambda>w. safe w \<and> ?A w)
      (block
        [ignore (sqlite3_bind_double up 1 n1),
         ignore (sqlite3_bind_double up 2 n2),
         ignore (sqlite3_bind_double up 3 n3),
         ignore (sqlite3_bind_double up 4 n4),
         ignore (sqlite3_bind_int64 up 5 row_rowid),
         bnd (sqlite3_step up) (\<lambda>up_rc. if_then (up_rc \<noteq> SQLITE_DONE) die_db_error),
         ignore (sqlite3_reset up),
         ignore (sqlite3_clear_bindings up)])
      (\<lambda>_ w. safe w \<and> ?A w) died" for row_rowid n1 n2 n3 n4
    unfolding block.simps
    apply (rule triple_andthen [OF bind_double_safe [OF A]])
    apply (rule triple_andthen [OF bind_double_safe [OF A]])
    apply (rule triple_andthen [OF bind_double_safe [OF A]])
    apply (rule triple_andthen [OF bind_double_safe [OF A]])
    apply (rule triple_andthen [OF bind_int64_safe [OF A]])
    apply (rule triple_andthen [OF step_update_rowid_safe [OF A]])
      apply simp
     apply simp
    apply (rule triple_andthen [OF reset_safe [OF A]])
    apply (rule triple_andthen [OF clear_bindings_safe [OF A]])
    apply (rule triple_skip)
    done
  have body: "triple (\<lambda>w. safe w \<and> ?A w) (update_rows_rowid_body sel up) (\<lambda>_ w. safe w \<and> ?A w) died"
    unfolding update_rows_rowid_body_def
    apply (rule triple_bnd [OF column_int64_any])
    apply (rule triple_bnd [OF column_double_any])
    apply (rule triple_bnd [OF column_double_any])
    apply (rule triple_bnd [OF column_double_any])
    apply (rule triple_bnd [OF column_double_any])
    apply (rule tail)
    done
  show ?thesis
    by (rule triple_weaken [OF body]) (simp_all add: on_row_pending_rows)
qed

lemma begin_safe': 
  "triple safe (bnd (sqlite3_exec BEGIN_TRANSACTION) (\<lambda>rc. if_then (rc \<noteq> SQLITE_OK) die_db_error))
     (\<lambda>_. safe) died"
  using begin_safe [where A = "\<lambda>_. True"] by simp

lemma commit_safe':
  "triple (\<lambda>w. safe w \<and> A w)
     (bnd (sqlite3_exec COMMIT_TRANSACTION) (\<lambda>rc. if_then (rc \<noteq> SQLITE_OK) die_db_error))
     (\<lambda>_. safe) died"
  using commit_safe [where A = A and B = "\<lambda>_. True"] by simp

lemma finalize_safe': "triple safe (ignore (sqlite3_finalize h)) (\<lambda>_. safe) E"
  using finalize_safe [where A = "\<lambda>_. True" and B = "\<lambda>_. True" and h = h and E = E] by simp

text \<open>
  The two update functions differ in the texts of their statements and in the body of
  their loop.
\<close>

lemma update_rows_safe:
  assumes q: "q = SELECT_ORDER_BY_key \<or> q = SELECT_ORDER_BY_rowid"
    and body: "\<And>sel up k. sel \<noteq> up \<Longrightarrow>
      triple (\<lambda>w. (safe w \<and> is_stmt w sel q \<and> is_stmt w up q') \<and> on_row sel k w) (body sel up)
        (\<lambda>_ w. (safe w \<and> is_stmt w sel q \<and> is_stmt w up q') \<and> pending_rows sel w < k) died"
  shows "triple safe
     (andthen (bnd (sqlite3_exec BEGIN_TRANSACTION) (\<lambda>rc. if_then (rc \<noteq> SQLITE_OK) die_db_error))
     (bnd (sqlite3_prepare_v3 q) (\<lambda>(rc, sel_stmt).
      andthen (if_then (rc \<noteq> SQLITE_OK) die_db_error)
     (bnd (sqlite3_prepare_v3 q') (\<lambda>(rc, up_stmt).
      andthen (if_then (rc \<noteq> SQLITE_OK) die_db_error)
     (andthen (while_loop (bnd (sqlite3_step sel_stmt) (\<lambda>rc. ret (rc = SQLITE_ROW)))
                          (body sel_stmt up_stmt))
     (andthen (bnd (sqlite3_exec COMMIT_TRANSACTION) (\<lambda>rc. if_then (rc \<noteq> SQLITE_OK) die_db_error))
     (andthen (ignore (sqlite3_finalize sel_stmt))
              (ignore (sqlite3_finalize up_stmt))))))))))
     (\<lambda>_. safe) died"
proof (rule triple_andthen [OF begin_safe'])
  have rest: "triple (\<lambda>w. safe w \<and> is_stmt w sel q \<and> is_stmt w up q')
      (andthen (while_loop (bnd (sqlite3_step sel) (\<lambda>rc. ret (rc = SQLITE_ROW))) (body sel up))
      (andthen (bnd (sqlite3_exec COMMIT_TRANSACTION) (\<lambda>rc. if_then (rc \<noteq> SQLITE_OK) die_db_error))
      (andthen (ignore (sqlite3_finalize sel))
               (ignore (sqlite3_finalize up)))))
      (\<lambda>_. safe) died" if ne: "sel \<noteq> up" for sel up
  proof (rule triple_andthen [OF _ triple_andthen [OF _ triple_andthen]])
    show "triple (\<lambda>w. safe w \<and> is_stmt w sel q \<and> is_stmt w up q')
        (while_loop (bnd (sqlite3_step sel) (\<lambda>rc. ret (rc = SQLITE_ROW))) (body sel up))
        (\<lambda>_ w. safe w \<and> is_stmt w sel q \<and> is_stmt w up q') died"
    proof (rule triple_while [where m = "pending_rows sel"
          and B = "\<lambda>k w. (safe w \<and> is_stmt w sel q \<and> is_stmt w up q') \<and> on_row sel k w"])
      fix k
      show "triple (\<lambda>w. (safe w \<and> is_stmt w sel q \<and> is_stmt w up q') \<and> pending_rows sel w = k)
          (bnd (sqlite3_step sel) (\<lambda>rc. ret (rc = SQLITE_ROW)))
          (\<lambda>b w. if b then (safe w \<and> is_stmt w sel q \<and> is_stmt w up q') \<and> on_row sel k w
                 else safe w \<and> is_stmt w sel q \<and> is_stmt w up q') died"
        using q ne by (rule select_cond_safe)
      show "triple (\<lambda>w. (safe w \<and> is_stmt w sel q \<and> is_stmt w up q') \<and> on_row sel k w) (body sel up)
          (\<lambda>_ w. (safe w \<and> is_stmt w sel q \<and> is_stmt w up q') \<and> pending_rows sel w < k) died"
        using ne by (rule body)
    qed
    show "triple (\<lambda>w. safe w \<and> is_stmt w sel q \<and> is_stmt w up q')
        (bnd (sqlite3_exec COMMIT_TRANSACTION) (\<lambda>rc. if_then (rc \<noteq> SQLITE_OK) die_db_error))
        (\<lambda>_. safe) died"
      by (rule commit_safe')
    show "triple safe (ignore (sqlite3_finalize sel)) (\<lambda>_. safe) died"
      by (rule finalize_safe')
    show "triple safe (ignore (sqlite3_finalize up)) (\<lambda>_. safe) died"
      by (rule finalize_safe')
  qed
  show "triple safe
     (bnd (sqlite3_prepare_v3 q) (\<lambda>(rc, sel_stmt).
      andthen (if_then (rc \<noteq> SQLITE_OK) die_db_error)
     (bnd (sqlite3_prepare_v3 q') (\<lambda>(rc, up_stmt).
      andthen (if_then (rc \<noteq> SQLITE_OK) die_db_error)
     (andthen (while_loop (bnd (sqlite3_step sel_stmt) (\<lambda>rc. ret (rc = SQLITE_ROW)))
                          (body sel_stmt up_stmt))
     (andthen (bnd (sqlite3_exec COMMIT_TRANSACTION) (\<lambda>rc. if_then (rc \<noteq> SQLITE_OK) die_db_error))
     (andthen (ignore (sqlite3_finalize sel_stmt))
              (ignore (sqlite3_finalize up_stmt)))))))))
     (\<lambda>_. safe) died"
  proof (rule triple_prepare_checked [where R = "\<lambda>h w. safe w \<and> is_stmt w h q"])
    fix w assume "safe w"
    then show "clean (trace w)" by (simp add: safe_def)
  next
    fix w assume a: "safe w"
    let ?w = "w\<lparr>stmts := stmts w @ [Some (new_stmt q)]\<rparr>"
    from a have "safe (logged (Prepare q) SQLITE_OK ?w)" by (blast intro: safe_new_stmt)
    moreover have "is_stmt ?w (length (stmts w)) q" by (rule is_stmt_new_stmt)
    ultimately show "safe (logged (Prepare q) SQLITE_OK ?w) \<and>
        is_stmt (logged (Prepare q) SQLITE_OK ?w) (length (stmts w)) q"
      by simp
  next
    fix sel
    show "triple (\<lambda>w. safe w \<and> is_stmt w sel q)
       (bnd (sqlite3_prepare_v3 q') (\<lambda>(rc, up_stmt).
        andthen (if_then (rc \<noteq> SQLITE_OK) die_db_error)
       (andthen (while_loop (bnd (sqlite3_step sel) (\<lambda>rc. ret (rc = SQLITE_ROW)))
                            (body sel up_stmt))
       (andthen (bnd (sqlite3_exec COMMIT_TRANSACTION) (\<lambda>rc. if_then (rc \<noteq> SQLITE_OK) die_db_error))
       (andthen (ignore (sqlite3_finalize sel))
                (ignore (sqlite3_finalize up_stmt)))))))
       (\<lambda>_. safe) died"
    proof (rule triple_prepare_checked
        [where R = "\<lambda>h w. sel \<noteq> h \<and> (safe w \<and> is_stmt w sel q \<and> is_stmt w h q')"])
      fix w assume "safe w \<and> is_stmt w sel q"
      then show "clean (trace w)" by (simp add: safe_def)
    next
      fix w assume a: "safe w \<and> is_stmt w sel q"
      let ?w = "w\<lparr>stmts := stmts w @ [Some (new_stmt q')]\<rparr>"
      from a have "safe (logged (Prepare q') SQLITE_OK ?w)" by (blast intro: safe_new_stmt)
      moreover have "is_stmt ?w (length (stmts w)) q'" by (rule is_stmt_new_stmt)
      moreover from a have "is_stmt ?w sel q" by (blast intro: is_stmt_append)
      moreover from a have "sel \<noteq> length (stmts w)" by (auto dest: is_stmt_length)
      ultimately show "sel \<noteq> length (stmts w) \<and>
          (safe (logged (Prepare q') SQLITE_OK ?w) \<and>
           is_stmt (logged (Prepare q') SQLITE_OK ?w) sel q \<and>
           is_stmt (logged (Prepare q') SQLITE_OK ?w) (length (stmts w)) q')"
        by simp
    next
      fix up
      show "triple (\<lambda>w. sel \<noteq> up \<and> (safe w \<and> is_stmt w sel q \<and> is_stmt w up q'))
         (andthen (while_loop (bnd (sqlite3_step sel) (\<lambda>rc. ret (rc = SQLITE_ROW))) (body sel up))
         (andthen (bnd (sqlite3_exec COMMIT_TRANSACTION) (\<lambda>rc. if_then (rc \<noteq> SQLITE_OK) die_db_error))
         (andthen (ignore (sqlite3_finalize sel))
                  (ignore (sqlite3_finalize up)))))
         (\<lambda>_. safe) died"
        by (rule triple_assume) (rule rest)
    qed
  qed
qed

lemma update_rows_pk_safe: "triple safe update_rows_pk (\<lambda>_. safe) died"
  unfolding update_rows_pk_def
  by (rule update_rows_safe) (simp, rule update_rows_pk_body_safe)

lemma update_rows_rowid_safe: "triple safe update_rows_rowid (\<lambda>_. safe) died"
  unfolding update_rows_rowid_def
  by (rule update_rows_safe) (simp, rule update_rows_rowid_body_safe)

subsection \<open>The scenarios and the whole program\<close>

lemma printf_clean:
  "triple (\<lambda>w. clean (trace w)) (printf fmt args) (\<lambda>_ w. clean (trace w)) E"
  by (rule triple_printf) simp

lemma getchar_clean:
  "triple (\<lambda>w. clean (trace w)) getchar (\<lambda>_ w. clean (trace w)) E"
  by (rule triple_getchar) simp

lemma clock_safe:
  assumes "\<And>w k. S (w\<lparr>clock_pos := k\<rparr>) = S w"
  shows "triple S clock (\<lambda>_. S) E"
  by (rule triple_clock) (simp add: assms)

lemma time_test_execution_safe:
  assumes su: "triple (\<lambda>w. safe w \<and> tbl w = None \<and> stmts w = []) setup_fun (\<lambda>_. S) died"
    and f: "triple S f (\<lambda>_. safe) died"
    and S: "\<And>w k. S (w\<lparr>clock_pos := k\<rparr>) = S w"
  shows "triple (\<lambda>w. clean (trace w)) (time_test_execution n test_name f (Some setup_fun))
     (\<lambda>_ w. clean (trace w)) died"
  unfolding time_test_execution_def option.case
  apply (rule triple_andthen [OF open_database_safe])
  apply (rule triple_andthen [OF su])
  apply (rule triple_bnd [OF clock_safe [of S]])
   apply (rule S)
  apply (rule triple_andthen [OF f])
  apply (rule triple_bnd [OF clock_safe [of safe]])
   apply simp
  apply (rule triple_andthen [OF close_database_safe])
  apply (rule triple_bnd [where R = "\<lambda>_ w. clean (trace w)"])
   apply (rule triple_gets')
   apply assumption
  apply (rule printf_clean)
  done

lemma counted_clock [simp]: "counted g k (w\<lparr>clock_pos := p\<rparr>) = counted g k w"
  by (simp add: counted_def)

lemma time_insert_rows_xact:
  assumes n: "0 \<le> n" "n \<le> INT_MAX"
  shows "triple (\<lambda>w. clean (trace w))
     (time_test_execution n test_name (insert_rows_xact n) (Some setup_test))
     (\<lambda>_ w. clean (trace w)) died"
proof (rule time_test_execution_safe [where S = "\<lambda>w. safe w \<and> counted True 0 w"])
  show "triple (\<lambda>w. safe w \<and> tbl w = None \<and> stmts w = []) setup_test
      (\<lambda>_ w. safe w \<and> counted True 0 w) died"
    using setup_test_safe [where A = "\<lambda>ss. ss = []"]
    by (rule triple_weaken) (simp_all add: counted_def)
  show "triple (\<lambda>w. safe w \<and> counted True 0 w) (insert_rows_xact n) (\<lambda>_. safe) died"
    using insert_rows_xact_safe [OF n, where g = True] by (rule triple_weaken) simp_all
qed simp

lemma time_insert_rows_xact_prepared:
  assumes n: "0 \<le> n" "n \<le> INT_MAX"
  shows "triple (\<lambda>w. clean (trace w))
     (time_test_execution n test_name (insert_rows_xact_prepared n) (Some setup_test))
     (\<lambda>_ w. clean (trace w)) died"
proof (rule time_test_execution_safe [where S = "\<lambda>w. safe w \<and> counted True 0 w"])
  show "triple (\<lambda>w. safe w \<and> tbl w = None \<and> stmts w = []) setup_test
      (\<lambda>_ w. safe w \<and> counted True 0 w) died"
    using setup_test_safe [where A = "\<lambda>ss. ss = []"]
    by (rule triple_weaken) (simp_all add: counted_def)
  show "triple (\<lambda>w. safe w \<and> counted True 0 w) (insert_rows_xact_prepared n) (\<lambda>_. safe) died"
    using insert_rows_xact_prepared_safe [OF n, where g = True] by (rule triple_weaken) simp_all
qed simp

lemma time_update_rows:
  assumes n: "0 \<le> n" "n \<le> INT_MAX" and f: "triple safe f (\<lambda>_. safe) died"
  shows "triple (\<lambda>w. clean (trace w))
     (time_test_execution n test_name f (Some (setup_update_test n)))
     (\<lambda>_ w. clean (trace w)) died"
proof (rule time_test_execution_safe [where S = safe])
  show "triple (\<lambda>w. safe w \<and> tbl w = None \<and> stmts w = []) (setup_update_test n) (\<lambda>_. safe) died"
    using setup_update_test_safe [OF n, where g = False]
    by (rule triple_weaken) simp_all
qed (simp_all add: f)

lemma main_safe:
  assumes n: "0 \<le> n" "n \<le> INT_MAX"
  shows "triple (\<lambda>w. clean (trace w)) (main n) (\<lambda>_ w. clean (trace w)) died"
  unfolding main_def block.simps
  apply (rule triple_andthen [OF printf_clean])
  apply (rule triple_andthen [OF printf_clean])
  apply (rule triple_andthen [OF printf_clean])
  apply (rule triple_andthen [OF printf_clean])
  apply (rule triple_andthen [OF printf_clean])
  apply (rule triple_andthen [OF printf_clean])
  apply (rule triple_andthen [OF time_insert_rows_xact [OF n]])
  apply (rule triple_andthen [OF time_insert_rows_xact_prepared [OF n]])
  apply (rule triple_andthen [OF printf_clean])
  apply (rule triple_andthen [OF printf_clean])
  apply (rule triple_andthen [OF printf_clean])
  apply (rule triple_andthen [OF printf_clean])
  apply (rule triple_andthen [OF time_update_rows [OF n update_rows_pk_safe]])
  apply (rule triple_andthen [OF time_update_rows [OF n update_rows_rowid_safe]])
  apply (rule triple_andthen [OF printf_clean])
  apply (rule triple_andthen [OF printf_clean])
  apply (rule triple_andthen [OF printf_clean])
  apply (rule triple_andthen [OF getchar_clean])
  apply (rule triple_skip)
  done

section \<open>Counting the rows that the insert strategies add\<close>





















section \<open>Claims about keys and arithmetic\<close>

text \<open>
  Claim C4. For every row count \<open>N\<close> and each insert strategy, the keys printed for the
  indices \<open>0, ..., N - 1\<close> of one run are pairwise distinct.
\<close>

theorem insert_keys_distinct:
  "distinct (map (\<lambda>i. insert_rows_key (int i)) [0..<N]) \<and>
   distinct (map (\<lambda>i. insert_rows_xact_key (int i)) [0..<N]) \<and>
   distinct (map (\<lambda>i. insert_rows_xact_prepared_key (int i)) [0..<N])"
proof -
  have a: "inj_on (\<lambda>i. insert_rows_key (int i)) A" for A
    by (rule inj_onI) (simp add: insert_rows_key_eq show_int_nat dec_inj)
  have b: "inj_on (\<lambda>i. insert_rows_xact_key (int i)) A" for A
    by (rule inj_onI) (simp add: insert_rows_xact_key_eq show_int_nat dec_inj)
  have c: "inj_on (\<lambda>i. insert_rows_xact_prepared_key (int i)) A" for A
    by (rule inj_onI) (simp add: insert_rows_xact_prepared_key_eq show_int_nat dec_inj)
  show ?thesis
    by (simp add: distinct_map a b c)
qed

text \<open>
  Claim C5 fails in the code: \<^verbatim>\<open>insert_rows\<close> (line 238) prints the index with \<^verbatim>\<open>%d\<close> and
  leaves out the prefix \<^verbatim>\<open>K-\<close> that the two transactional strategies print (lines 279 and
  331), although \<^verbatim>\<open>insert_rows_xact\<close> is announced as the same setup wrapped in a
  transaction (line 261). For index 0, \<^verbatim>\<open>insert_rows\<close> prints the digits alone and the
  two transactional strategies print \<^verbatim>\<open>K-\<close> before them.
\<close>

theorem key_prefix_counterexample:
  "insert_rows_key 0 = [] @ show_int 0 \<and>
   insert_rows_xact_key 0 = ''K-'' @ show_int 0 \<and>
   insert_rows_xact_prepared_key 0 = ''K-'' @ show_int 0 \<and>
   insert_rows_key 0 \<noteq> insert_rows_xact_key 0"
  by (simp add: insert_rows_key_eq insert_rows_xact_key_eq insert_rows_xact_prepared_key_eq)

text \<open>
  Claim C5, for the strategies that \<^verbatim>\<open>main\<close> runs. For every index \<open>i \<ge> 0\<close> the key printed
  by \<^verbatim>\<open>insert_rows_xact\<close> and by \<^verbatim>\<open>insert_rows_xact_prepared\<close> is the one fixed prefix
  \<^verbatim>\<open>K-\<close> followed by the decimal digits of \<open>i\<close>.
\<close>

theorem key_is_prefix_and_decimal:
  "insert_rows_xact_key (int i) = ''K-'' @ dec i \<and>
   insert_rows_xact_prepared_key (int i) = ''K-'' @ dec i"
  by (simp add: insert_rows_xact_key_eq insert_rows_xact_prepared_key_eq show_int_nat)

text \<open>
  Claim C6, as stated, fails: when \<^verbatim>\<open>rand()\<close> returns \<^verbatim>\<open>RAND_MAX\<close> the quotient is 100.0 itself,
  not a value below it. This is so for \<^verbatim>\<open>RAND_MAX = 32767\<close> and for \<^verbatim>\<open>RAND_MAX = 2147483647\<close>.
\<close>

theorem rand_double_limit_counterexample:
  "rand_double_of 32767 32767 = Finite 100 \<and>
   rand_double_of 2147483647 2147483647 = Finite 100 \<and>
   \<not> (100 :: rat) < 100"
  by code_simp

text \<open>
  Claim C6, amended. For \<open>0 \<le> r \<le> RAND_MAX\<close> the value \<^verbatim>\<open>rand_double\<close> returns is finite and
  not negative; it is below 100.0 when \<open>r < RAND_MAX\<close>, and it is 100.0 when \<open>r = RAND_MAX\<close>
  (for \<^verbatim>\<open>RAND_MAX\<close> 32767 or 2147483647): the range is the closed interval from 0 to 100.0.
\<close>

theorem rand_double_range:
  assumes "32767 \<le> rand_max" and "rand_max \<le> INT_MAX" and "0 \<le> r" and "r \<le> rand_max"
  shows "\<exists>v. rand_double_of rand_max r = Finite v \<and> 0 \<le> v \<and>
             (r < rand_max \<longrightarrow> v < 100) \<and>
             (r = rand_max \<and> (rand_max = 32767 \<or> rand_max = INT_MAX) \<longrightarrow> v = 100)"
proof -
  define v where "v = fl (of_int r / fl (of_int rand_max / 100))"
  have e: "rand_double_of rand_max r = Finite v"
    unfolding v_def by (rule rand_double_of_eq) (use assms in \<open>simp_all add: INT_MAX_def\<close>)
  have n: "0 \<le> v"
    unfolding v_def by (rule rand_double_of_nonneg) (use assms in simp_all)
  have b: "v < 100" if "r < rand_max"
    unfolding v_def by (rule rand_double_below_limit) (use assms that in \<open>simp_all add: INT_MAX_def\<close>)
  have t: "v = 100" if "r = rand_max" and "rand_max = 32767 \<or> rand_max = INT_MAX"
  proof -
    have "Finite v = Finite 100"
      using that rand_double_limit_helper e by (auto simp add: INT_MAX_def)
    then show ?thesis by simp
  qed
  from e n b t show ?thesis by blast
qed

theorem rand_double_range_witness:
  "\<exists>v. rand_double_of 32767 16000 = Finite v \<and> 0 \<le> v \<and> v < 100"
  using rand_double_range [of 32767 16000] by (simp add: INT_MAX_def)

text \<open>
  Claim C8, as stated, fails: the division is not guarded. When the two clock readings are
  equal the elapsed time is 0.0 and the quotient the report prints is infinite.
\<close>

theorem rows_per_sec_counterexample:
  "elapsed_seconds 1000 5 5 = Finite 0 \<and>
   rows_per_sec NUM_EXECUTIONS (elapsed_seconds 1000 5 5) = PosInf"
  by code_simp

text \<open>
  Claim C8, amended. The reported rows per second is the double quotient of the row count
  by the elapsed seconds. When the two clock readings differ the elapsed time is finite and
  not zero and so is defined the quotient; when they are equal the elapsed time is 0.0 and
  the quotient, for a positive row count, is plus infinity: there is no guard.
\<close>

theorem rows_per_sec_report:
  assumes "0 < clocks_per_sec"
  shows "(start \<noteq> end \<longrightarrow>
           (\<exists>t. elapsed_seconds clocks_per_sec start end = Finite t \<and> t \<noteq> 0 \<and>
                rows_per_sec n (elapsed_seconds clocks_per_sec start end) = Finite (fl (fl (of_int n) / t)))) \<and>
         (start = end \<and> 0 < n \<longrightarrow>
           elapsed_seconds clocks_per_sec start end = Finite 0 \<and>
           rows_per_sec n (elapsed_seconds clocks_per_sec start end) = PosInf)"
proof (intro conjI impI)
  assume d: "start \<noteq> end"
  define t where "t = fl (fl (of_int (end - start)) / fl (of_int clocks_per_sec))"
  have e: "elapsed_seconds clocks_per_sec start end = Finite t"
    unfolding t_def by (rule elapsed_seconds_eq [OF assms])
  have t: "t \<noteq> 0"
    using d assms by (simp add: t_def fl_eq_0_iff)
  have "rows_per_sec n (Finite t) = Finite (fl (fl (of_int n) / t))"
    using t by (simp add: rows_per_sec_def double_of_int_def)
  with e t show "\<exists>t. elapsed_seconds clocks_per_sec start end = Finite t \<and> t \<noteq> 0 \<and>
      rows_per_sec n (elapsed_seconds clocks_per_sec start end) = Finite (fl (fl (of_int n) / t))"
    by auto
next
  assume a: "start = end \<and> 0 < n"
  then show "elapsed_seconds clocks_per_sec start end = Finite 0"
    using assms by (simp add: elapsed_seconds_zero)
  have "0 < fl (of_int n)" by (rule fl_pos) (use a in simp)
  then show "rows_per_sec n (elapsed_seconds clocks_per_sec start end) = PosInf"
    using a assms by (simp add: elapsed_seconds_zero rows_per_sec_def double_of_int_def)
qed

theorem rows_per_sec_report_witness:
  "(\<exists>t. elapsed_seconds 1000 5 2505 = Finite t \<and> t \<noteq> 0 \<and>
        rows_per_sec 10000000 (elapsed_seconds 1000 5 2505) = Finite (fl (fl (of_int 10000000) / t))) \<and>
   elapsed_seconds 1000 7 7 = Finite 0 \<and>
   rows_per_sec 10000000 (elapsed_seconds 1000 7 7) = PosInf"
  using rows_per_sec_report [of 1000 5 2505 10000000] rows_per_sec_report [of 1000 7 7 10000000]
  by auto

section \<open>Claims about failures of the store and about the key buffers\<close>




text \<open>
  Claim C9. For every index \<open>0 \<le> i < NUM_EXECUTIONS\<close> the key that each insert strategy prints
  has at most 24 characters, so with its terminating zero it fits \<^verbatim>\<open>char key[25]\<close>. And the
  whole program, run with \<^verbatim>\<open>NUM_EXECUTIONS\<close> rows on any machine and whatever the store does,
  ends without undefined behaviour: in this model undefined behaviour is exactly a
  \<^verbatim>\<open>sprintf\<close> or a \<^verbatim>\<open>strcpy\<close> that writes more than 25 bytes into a key buffer (or a \<^verbatim>\<open>strcpy\<close>
  from the null pointer), so every key that \<^verbatim>\<open>update_rows_pk\<close> reads back and copies fits
  as well.
\<close>

theorem key_buffers_never_overflow:
  assumes "0 \<le> i" and "i < NUM_EXECUTIONS" and "trace w = []"
  shows "length (insert_rows_key i) \<le> 24 \<and>
     length (insert_rows_xact_key i) \<le> 24 \<and>
     length (insert_rows_xact_prepared_key i) \<le> 24 \<and>
     (\<exists>r w'. main NUM_EXECUTIONS w = Some (r, w') \<and> r \<noteq> Undefined_behaviour)"
proof -
  from assms(1,2) have i: "0 \<le> i" "i \<le> INT_MAX"
    by (simp_all add: NUM_EXECUTIONS_def INT_MAX_def)
  have "fits_key (insert_rows_key i)" "fits_key (insert_rows_xact_key i)"
    "fits_key (insert_rows_xact_prepared_key i)"
    using i by (rule fits_insert_rows_key fits_insert_rows_xact_key
        fits_insert_rows_xact_prepared_key)+
  then have keys: "length (insert_rows_key i) \<le> 24 \<and> length (insert_rows_xact_key i) \<le> 24 \<and>
      length (insert_rows_xact_prepared_key i) \<le> 24"
    by (simp add: fits_key_def KEY_SIZE_def)
  have n: "0 \<le> NUM_EXECUTIONS" "NUM_EXECUTIONS \<le> INT_MAX"
    by (simp_all add: NUM_EXECUTIONS_def INT_MAX_def)
  from assms(3) have "clean (trace w)" by simp
  with main_safe [OF n] obtain r w' where r: "main NUM_EXECUTIONS w = Some (r, w')"
    and c: "case r of Ret x \<Rightarrow> clean (trace w') | Exit c \<Rightarrow> died c w'
              | Undefined_behaviour \<Rightarrow> False"
    by (rule tripleD)
  from c have "r \<noteq> Undefined_behaviour" by (cases r) simp_all
  with r keys show ?thesis by simp
qed

theorem key_buffers_never_overflow_witness:
  "length (insert_rows_key 9999999) \<le> 24 \<and>
   length (insert_rows_xact_key 9999999) \<le> 24 \<and>
   length (insert_rows_xact_prepared_key 9999999) \<le> 24 \<and>
   (\<exists>r w'. main NUM_EXECUTIONS fresh_world = Some (r, w') \<and> r \<noteq> Undefined_behaviour)"
  using key_buffers_never_overflow [of 9999999 fresh_world]
  by (simp add: NUM_EXECUTIONS_def fresh_world_def)

section \<open>Claim about the number of rows inserted\<close>



end
